theory Spec2Isabelle
  imports Main
begin

section \<open>Python values\<close>

text \<open>
  The program is \<^verbatim>\<open>src/mydataset/semanticscholar.py\<close>: the fetcher
  \<^verbatim>\<open>search_semantic_scholar\<close> with the \<^verbatim>\<open>for offset in range(...)\<close> loop (lines 6 to
  100) and the exporter \<^verbatim>\<open>save_papers_to_file\<close> (lines 102 to 134). The file goes on
  with a second version of the fetcher, a \<^verbatim>\<open>while\<close> loop that is cut off in the middle of
  its body; it is not modelled.

  A decoded JSON document is a Python value built from \<^verbatim>\<open>None\<close>, booleans, integers,
  strings, lists and dicts. A dict is kept as the list of its items; looking a key up is
  \<open>map_of\<close>. Floating point numbers are left out of the model. Characters are code points
  below 256.
\<close>

datatype json = JNull | JBool bool | JInt int | JStr string
  | JList "json list" | JObj "(string \<times> json) list"

text \<open>The exceptions the two functions can meet; all of them are subclasses of \<^verbatim>\<open>Exception\<close>.\<close>

datatype exn = HTTPError nat | RequestException | JSONDecodeError
  | TypeError | KeyError | AttributeError | ValueError | OSError | UnicodeEncodeError

definition dquote :: char where
  "dquote = CHR 0x22"

definition CR :: char where
  "CR = CHR 0x0D"

definition LF :: char where
  "LF = CHR 0x0A"

text \<open>\<^verbatim>\<open>sep.join(xs)\<close> on a list of strings.\<close>

fun join :: "string \<Rightarrow> string list \<Rightarrow> string" where
  "join sep [] = []"
| "join sep [x] = x"
| "join sep (x # y # zs) = x @ sep @ join sep (y # zs)"

text \<open>Decimal digits, as \<^verbatim>\<open>str\<close> prints an integer.\<close>

definition digit_char :: "nat \<Rightarrow> char" where
  "digit_char d =
     (if d = 0 then CHR ''0'' else if d = 1 then CHR ''1'' else if d = 2 then CHR ''2''
      else if d = 3 then CHR ''3'' else if d = 4 then CHR ''4'' else if d = 5 then CHR ''5''
      else if d = 6 then CHR ''6'' else if d = 7 then CHR ''7'' else if d = 8 then CHR ''8''
      else CHR ''9'')"

fun string_of_nat :: "nat \<Rightarrow> string" where
  "string_of_nat n =
     (if n < 10 then [digit_char n] else string_of_nat (n div 10) @ [digit_char (n mod 10)])"

declare string_of_nat.simps [simp del]

definition string_of_int :: "int \<Rightarrow> string" where
  "string_of_int i = (if i < 0 then CHR ''-'' # string_of_nat (nat (- i)) else string_of_nat (nat i))"

text \<open>
  \<^verbatim>\<open>repr\<close> of a string: single quotes unless the string holds a single quote and no double
  quote; backslash, the chosen quote, tab, newline and carriage return are escaped, the
  other unprintable characters are written \<^verbatim>\<open>\xhh\<close>.
\<close>

definition hex_digit :: "nat \<Rightarrow> char" where
  "hex_digit d =
     (if d < 10 then digit_char d else if d = 10 then CHR ''a'' else if d = 11 then CHR ''b''
      else if d = 12 then CHR ''c'' else if d = 13 then CHR ''d'' else if d = 14 then CHR ''e''
      else CHR ''f'')"

definition unprintable :: "char \<Rightarrow> bool" where
  "unprintable c =
     (let n = (of_char c :: nat) in n < 32 \<or> n = 127 \<or> (128 \<le> n \<and> n \<le> 160) \<or> n = 173)"

definition repr_char :: "char \<Rightarrow> char \<Rightarrow> string" where
  "repr_char q c =
     (if c = q \<or> c = CHR 0x5C then [CHR 0x5C, c]
      else if c = CHR 0x09 then [CHR 0x5C, CHR ''t'']
      else if c = LF then [CHR 0x5C, CHR ''n'']
      else if c = CR then [CHR 0x5C, CHR ''r'']
      else if unprintable c then
        [CHR 0x5C, CHR ''x'', hex_digit (of_char c div 16), hex_digit (of_char c mod 16)]
      else [c])"

definition repr_str :: "string \<Rightarrow> string" where
  "repr_str s =
     (let q = (if CHR 0x27 \<in> set s \<and> dquote \<notin> set s then dquote else CHR 0x27)
      in q # concat (map (repr_char q) s) @ [q])"

fun py_repr :: "json \<Rightarrow> string" where
  "py_repr JNull = ''None''"
| "py_repr (JBool b) = (if b then ''True'' else ''False'')"
| "py_repr (JInt i) = string_of_int i"
| "py_repr (JStr s) = repr_str s"
| "py_repr (JList xs) = ''['' @ join '', '' (map py_repr xs) @ '']''"
| "py_repr (JObj kvs) =
     ''{'' @ join '', '' (map (\<lambda>(k, v). repr_str k @ '': '' @ py_repr v) kvs) @ ''}''"

text \<open>\<^verbatim>\<open>str(v)\<close>, which is what an f-string writes for \<^verbatim>\<open>{v}\<close>.\<close>

fun py_str :: "json \<Rightarrow> string" where
  "py_str (JStr s) = s"
| "py_str v = py_repr v"

text \<open>Truth value of a Python value, as \<^verbatim>\<open>and\<close> and \<^verbatim>\<open>if\<close> test it.\<close>

fun truthy :: "json \<Rightarrow> bool" where
  "truthy JNull = False"
| "truthy (JBool b) = b"
| "truthy (JInt i) = (i \<noteq> 0)"
| "truthy (JStr s) = (s \<noteq> [])"
| "truthy (JList xs) = (xs \<noteq> [])"
| "truthy (JObj kvs) = (kvs \<noteq> [])"

text \<open>\<^verbatim>\<open>d.get(key, default)\<close>: only a dict has the method.\<close>

fun py_get :: "json \<Rightarrow> string \<Rightarrow> json \<Rightarrow> exn + json" where
  "py_get (JObj kvs) key dflt = (case map_of kvs key of None \<Rightarrow> Inr dflt | Some v \<Rightarrow> Inr v)"
| "py_get v key dflt = Inl AttributeError"

text \<open>\<^verbatim>\<open>v[key]\<close> with a string key: a missing key of a dict, and any other value, raise.\<close>

fun py_getitem :: "json \<Rightarrow> string \<Rightarrow> exn + json" where
  "py_getitem (JObj kvs) key = (case map_of kvs key of None \<Rightarrow> Inl KeyError | Some v \<Rightarrow> Inr v)"
| "py_getitem v key = Inl TypeError"

text \<open>
  Iterating a value: a list gives its elements, a string its characters, a dict its
  keys; nothing else is iterable.
\<close>

fun py_iter :: "json \<Rightarrow> exn + json list" where
  "py_iter (JList xs) = Inr xs"
| "py_iter (JStr s) = Inr (map (\<lambda>c. JStr [c]) s)"
| "py_iter (JObj kvs) = Inr (map (\<lambda>(k, v). JStr k) kvs)"
| "py_iter v = Inl TypeError"

fun py_len :: "json \<Rightarrow> exn + nat" where
  "py_len (JList xs) = Inr (length xs)"
| "py_len (JStr s) = Inr (length s)"
| "py_len (JObj kvs) = Inr (length kvs)"
| "py_len v = Inl TypeError"

text \<open>\<^verbatim>\<open>key in v\<close> for a string key: dict membership, list membership, substring test.\<close>

fun is_prefix :: "string \<Rightarrow> string \<Rightarrow> bool" where
  "is_prefix [] ys = True"
| "is_prefix (x # xs) [] = False"
| "is_prefix (x # xs) (y # ys) = (x = y \<and> is_prefix xs ys)"

fun is_substring :: "string \<Rightarrow> string \<Rightarrow> bool" where
  "is_substring xs [] = (xs = [])"
| "is_substring xs (y # ys) = (is_prefix xs (y # ys) \<or> is_substring xs ys)"

fun py_in :: "string \<Rightarrow> json \<Rightarrow> exn + bool" where
  "py_in key (JObj kvs) = Inr (map_of kvs key \<noteq> None)"
| "py_in key (JList xs) = Inr (JStr key \<in> set xs)"
| "py_in key (JStr s) = Inr (is_substring key s)"
| "py_in key v = Inl TypeError"

text \<open>A comprehension whose body may raise: the first exception ends it.\<close>

fun try_map :: "('a \<Rightarrow> exn + 'b) \<Rightarrow> 'a list \<Rightarrow> exn + 'b list" where
  "try_map f [] = Inr []"
| "try_map f (x # xs) =
     (case f x of Inl e \<Rightarrow> Inl e
      | Inr y \<Rightarrow> (case try_map f xs of Inl e \<Rightarrow> Inl e | Inr ys \<Rightarrow> Inr (y # ys)))"

text \<open>\<^verbatim>\<open>sep.join(xs)\<close> on arbitrary values: an element that is not a string is a TypeError.\<close>

fun as_str :: "json \<Rightarrow> exn + string" where
  "as_str (JStr s) = Inr s"
| "as_str v = Inl TypeError"

definition py_join :: "string \<Rightarrow> json list \<Rightarrow> exn + string" where
  "py_join sep xs = (case try_map as_str xs of Inl e \<Rightarrow> Inl e | Inr ss \<Rightarrow> Inr (join sep ss))"

text \<open>
  \<^verbatim>\<open>range(start, stop, step)\<close> as the list of its values; a zero step raises ValueError.
\<close>

definition py_range :: "int \<Rightarrow> int \<Rightarrow> int \<Rightarrow> exn + int list" where
  "py_range start stop step =
     (if step = 0 then Inl ValueError
      else if 0 < step then
        Inr (map (\<lambda>i. start + int i * step) [0 ..< nat ((stop - start + step - 1) div step)])
      else
        Inr (map (\<lambda>i. start + int i * step) [0 ..< nat ((start - stop - step - 1) div (- step))]))"

section \<open>The fetcher\<close>

text \<open>The record built for one entry of a page (lines 58 to 65).\<close>

record paper =
  title :: json
  summary :: json
  authors :: "json list"
  published :: json
  pdf_url :: json
  references :: string

text \<open>\<^verbatim>\<open>[author["name"] for author in d.get("authors", [])]\<close>.\<close>

definition author_names :: "json \<Rightarrow> exn + json list" where
  "author_names d =
     (case py_get d ''authors'' (JList []) of Inl e \<Rightarrow> Inl e
      | Inr a \<Rightarrow> (case py_iter a of Inl e \<Rightarrow> Inl e
      | Inr as \<Rightarrow> try_map (\<lambda>author. py_getitem author ''name'') as))"

text \<open>The body of the loop over \<^verbatim>\<open>enumerate(references, start=1)\<close> (lines 52 to 55).\<close>

definition format_reference :: "nat \<Rightarrow> json \<Rightarrow> exn + string" where
  "format_reference idx ref =
     (case py_get ref ''title'' (JStr ''No title'') of Inl e \<Rightarrow> Inl e
      | Inr ref_title \<Rightarrow> (case author_names ref of Inl e \<Rightarrow> Inl e
      | Inr names \<Rightarrow> (case py_join '', '' names of Inl e \<Rightarrow> Inl e
      | Inr ref_authors \<Rightarrow> (case py_get ref ''year'' (JStr ''Unknown'') of Inl e \<Rightarrow> Inl e
      | Inr ref_year \<Rightarrow>
          Inr (''['' @ string_of_nat idx @ ''] '' @ ref_authors @ '', '' @ [dquote]
               @ py_str ref_title @ '','' @ [dquote] @ '' '' @ py_str ref_year @ ''.'')))))"

fun format_references :: "nat \<Rightarrow> json list \<Rightarrow> exn + string list" where
  "format_references idx [] = Inr []"
| "format_references idx (ref # refs) =
     (case format_reference idx ref of Inl e \<Rightarrow> Inl e
      | Inr f \<Rightarrow> (case format_references (Suc idx) refs of Inl e \<Rightarrow> Inl e
      | Inr fs \<Rightarrow> Inr (f # fs)))"

text \<open>Lines 43 to 65: the record of one entry, or the exception the entry raises.\<close>

definition make_paper :: "json \<Rightarrow> exn + paper" where
  "make_paper entry =
     (case py_get entry ''title'' (JStr ''No title'') of Inl e \<Rightarrow> Inl e
      | Inr title' \<Rightarrow> (case author_names entry of Inl e \<Rightarrow> Inl e
      | Inr authors' \<Rightarrow> (case py_get entry ''abstract'' (JStr ''No abstract available'') of Inl e \<Rightarrow> Inl e
      | Inr abstract \<Rightarrow> (case py_get entry ''year'' (JStr ''Unknown'') of Inl e \<Rightarrow> Inl e
      | Inr year \<Rightarrow> (case py_get entry ''url'' (JStr ''No URL available'') of Inl e \<Rightarrow> Inl e
      | Inr url \<Rightarrow> (case py_get entry ''references'' (JList []) of Inl e \<Rightarrow> Inl e
      | Inr refs \<Rightarrow> (case py_iter refs of Inl e \<Rightarrow> Inl e
      | Inr ref_items \<Rightarrow> (case format_references 1 ref_items of Inl e \<Rightarrow> Inl e
      | Inr reference_list \<Rightarrow>
          Inr \<lparr>title = title', summary = abstract, authors = authors', published = year,
               pdf_url = url,
               references = (if reference_list \<noteq> [] then join '' '' reference_list
                             else ''No references available'')\<rparr>))))))))"

text \<open>
  The loop over the entries of a page (lines 42 to 70). \<^verbatim>\<open>papers\<close> is appended to in
  place, so the records appended before an exception stay; the second component is the
  exception that left the loop, if any. The \<^verbatim>\<open>break\<close> leaves this loop only.
\<close>

fun append_entries :: "int \<Rightarrow> paper list \<Rightarrow> json list \<Rightarrow> paper list \<times> exn option" where
  "append_entries max_papers papers [] = (papers, None)"
| "append_entries max_papers papers (entry # rest) =
     (case make_paper entry of Inl e \<Rightarrow> (papers, Some e)
      | Inr p \<Rightarrow>
          (if int (length (papers @ [p])) \<ge> max_papers then (papers @ [p], None)
           else append_entries max_papers (papers @ [p]) rest))"

text \<open>
  The request and what comes back. \<^verbatim>\<open>requests.get\<close> either raises a
  \<^verbatim>\<open>RequestException\<close> or returns a response with a status code and a body;
  \<open>json_body\<close> is what \<^verbatim>\<open>response.json()\<close> decodes, \<open>None\<close> when the body is not JSON.
  The service is a function from the parameters of a request to its reply.
\<close>

record params =
  query :: string
  offset :: int
  limit :: int
  fields_p :: string

datatype reply = ConnectionError | Response nat "json option"

type_synonym api = "params \<Rightarrow> reply"

text \<open>\<^verbatim>\<open>response.raise_for_status()\<close> raises for the codes 400 to 599 only.\<close>

definition raise_for_status :: "nat \<Rightarrow> exn option" where
  "raise_for_status status_code =
     (if 400 \<le> status_code \<and> status_code < 600 then Some (HTTPError status_code) else None)"

datatype flow = Break | Continue

text \<open>
  Lines 39 to 83, from the decoded body on: the new \<^verbatim>\<open>papers\<close> and either the exception
  raised or how the iteration of the outer loop ends.
\<close>

definition process_data :: "int \<Rightarrow> int \<Rightarrow> paper list \<Rightarrow> json \<Rightarrow> paper list \<times> (exn + flow)" where
  "process_data max_papers batch_size papers data =
     (case py_in ''data'' data of Inl e \<Rightarrow> (papers, Inl e)
      | Inr False \<Rightarrow> (papers, Inr Break)
      | Inr True \<Rightarrow> (case py_getitem data ''data'' of Inl e \<Rightarrow> (papers, Inl e)
      | Inr d \<Rightarrow>
          if \<not> truthy d then (papers, Inr Break)
          else (case py_len d of Inl e \<Rightarrow> (papers, Inl e)
          | Inr n \<Rightarrow> (case py_iter d of Inl e \<Rightarrow> (papers, Inl e)
          | Inr entries \<Rightarrow> (case append_entries max_papers papers entries of
              (papers', Some e) \<Rightarrow> (papers', Inl e)
            | (papers', None) \<Rightarrow>
                if int n < batch_size then (papers', Inr Break) else (papers', Inr Continue))))))"

text \<open>The four \<^verbatim>\<open>except\<close> clauses (lines 85 to 98): each of them ends the outer loop.\<close>

fun handler :: "exn \<Rightarrow> flow" where
  "handler (HTTPError c) = Break"
| "handler RequestException = Break"
| "handler ValueError = Break"
| "handler JSONDecodeError = Break"
| "handler e = Break"

text \<open>
  One iteration of the outer loop (lines 20 to 98): the parameters sent, the new
  \<^verbatim>\<open>papers\<close>, and whether the loop goes on.
\<close>

definition make_params :: "string \<Rightarrow> int \<Rightarrow> int \<Rightarrow> paper list \<Rightarrow> int \<Rightarrow> params" where
  "make_params q max_papers batch_size papers off =
     \<lparr>query = q, offset = off, limit = min batch_size (max_papers - int (length papers)),
      fields_p = ''title,authors,abstract,year,url,references''\<rparr>"

definition try_page :: "api \<Rightarrow> params \<Rightarrow> int \<Rightarrow> int \<Rightarrow> paper list \<Rightarrow> paper list \<times> (exn + flow)" where
  "try_page service ps max_papers batch_size papers =
     (case service ps of
        ConnectionError \<Rightarrow> (papers, Inl RequestException)
      | Response status_code body \<Rightarrow>
          (case raise_for_status status_code of Some e \<Rightarrow> (papers, Inl e)
           | None \<Rightarrow> (case body of None \<Rightarrow> (papers, Inl JSONDecodeError)
           | Some data \<Rightarrow> process_data max_papers batch_size papers data)))"

definition fetch_page :: "api \<Rightarrow> string \<Rightarrow> int \<Rightarrow> int \<Rightarrow> paper list \<Rightarrow> int \<Rightarrow> params \<times> paper list \<times> flow" where
  "fetch_page service q max_papers batch_size papers off =
     (let ps = make_params q max_papers batch_size papers off in
      case try_page service ps max_papers batch_size papers of
        (papers', Inl e) \<Rightarrow> (ps, papers', handler e)
      | (papers', Inr fl) \<Rightarrow> (ps, papers', fl))"

text \<open>
  The outer loop over the offsets. The result is the final \<^verbatim>\<open>papers\<close> together with the
  parameters of every request sent, in the order sent.
\<close>

fun fetch_loop :: "api \<Rightarrow> string \<Rightarrow> int \<Rightarrow> int \<Rightarrow> paper list \<Rightarrow> int list \<Rightarrow> paper list \<times> params list" where
  "fetch_loop service q max_papers batch_size papers [] = (papers, [])"
| "fetch_loop service q max_papers batch_size papers (off # offs) =
     (case fetch_page service q max_papers batch_size papers off of
        (ps, papers', Break) \<Rightarrow> (papers', [ps])
      | (ps, papers', Continue) \<Rightarrow>
          (case fetch_loop service q max_papers batch_size papers' offs of
             (result, sent) \<Rightarrow> (result, ps # sent)))"

text \<open>
  \<^verbatim>\<open>search_semantic_scholar(query, max_papers, batch_size)\<close>. \<^verbatim>\<open>range\<close> is evaluated
  outside the \<^verbatim>\<open>try\<close>, so its ValueError reaches the caller.
\<close>

definition search_semantic_scholar :: "api \<Rightarrow> string \<Rightarrow> int \<Rightarrow> int \<Rightarrow> exn + paper list \<times> params list" where
  "search_semantic_scholar service q max_papers batch_size =
     (case py_range 0 max_papers batch_size of Inl e \<Rightarrow> Inl e
      | Inr offs \<Rightarrow> Inr (fetch_loop service q max_papers batch_size [] offs))"

section \<open>The exporter\<close>

text \<open>
  What the operating system does to \<^verbatim>\<open>save_papers_to_file\<close>: for each call that can
  fail, the exception it raises, if any. \<open>write_error env k\<close> is for the write number
  \<open>k\<close> to the file, the header being number 0.
\<close>

record os_env =
  makedirs_error :: "string \<Rightarrow> exn option"
  open_error :: "string \<Rightarrow> exn option"
  write_error :: "nat \<Rightarrow> exn option"
  close_error :: "exn option"

text \<open>\<^verbatim>\<open>os.path.join(a, b)\<close> for two components, on a POSIX system.\<close>

definition os_path_join :: "string \<Rightarrow> string \<Rightarrow> string" where
  "os_path_join a b =
     (if (case b of [] \<Rightarrow> False | c # cs \<Rightarrow> c = CHR ''/'') then b
      else if a = [] \<or> last a = CHR ''/'' then a @ b
      else a @ ''/'' @ b)"

text \<open>
  The \<^verbatim>\<open>csv\<close> writer with its default dialect: \<^verbatim>\<open>None\<close> is written as the empty
  string, a string as it is, any other value through \<^verbatim>\<open>str\<close>. A field is quoted when it
  holds the delimiter, the quote character or a character of the line terminator, and
  quote characters inside are doubled. A row of one empty field is written as two quotes.
\<close>

definition csv_cell :: "json \<Rightarrow> string" where
  "csv_cell v = (case v of JNull \<Rightarrow> [] | _ \<Rightarrow> py_str v)"

definition needs_quotes :: "string \<Rightarrow> bool" where
  "needs_quotes s = (\<exists>c\<in>set s. c = CHR '','' \<or> c = dquote \<or> c = CR \<or> c = LF)"

definition double_quotes :: "string \<Rightarrow> string" where
  "double_quotes s = concat (map (\<lambda>c. if c = dquote then [dquote, dquote] else [c]) s)"

definition csv_field :: "string \<Rightarrow> string" where
  "csv_field s = (if needs_quotes s then dquote # double_quotes s @ [dquote] else s)"

definition csv_row :: "string list \<Rightarrow> string" where
  "csv_row cells =
     (if cells = [[]] then [dquote, dquote] else join '','' (map csv_field cells)) @ [CR, LF]"

definition headers :: "string list" where
  "headers = [''Title'', ''Authors'', ''Published'', ''Summary'', ''PDF URL'', ''References'']"

text \<open>
  The dict passed to \<^verbatim>\<open>writer.writerow\<close> (lines 122 to 129), as the cells the writer
  writes for it in the order of \<open>headers\<close>. The join of the authors raises a TypeError
  when one of them is not a string.
\<close>

definition paper_row :: "paper \<Rightarrow> exn + string list" where
  "paper_row p =
     (case py_join '', '' (authors p) of Inl e \<Rightarrow> Inl e
      | Inr joined \<Rightarrow>
          Inr [csv_cell (title p), joined, csv_cell (published p), csv_cell (summary p),
               csv_cell (pdf_url p), references p])"

text \<open>
  The loop over \<^verbatim>\<open>papers\<close> (lines 121 to 129): the text written so far and the exception
  that ended the loop, if any.
\<close>

fun write_rows :: "os_env \<Rightarrow> nat \<Rightarrow> string \<Rightarrow> paper list \<Rightarrow> string \<times> exn option" where
  "write_rows env k out [] = (out, None)"
| "write_rows env k out (p # ps) =
     (case paper_row p of Inl e \<Rightarrow> (out, Some e)
      | Inr cells \<Rightarrow> (case write_error env k of Some e \<Rightarrow> (out, Some e)
      | None \<Rightarrow> write_rows env (Suc k) (out @ csv_row cells) ps))"

text \<open>
  What a call leaves behind when it returns: the folder made, the path of the file, the
  text of the file (\<open>None\<close> when the file was not opened) and the line printed.
\<close>

datatype report = Saved nat string | Failed exn

record saved =
  folder :: string
  file_path :: string
  file_text :: "string option"
  printed :: report

text \<open>
  \<^verbatim>\<open>save_papers_to_file(papers, folder_path, filename)\<close>. \<^verbatim>\<open>os.makedirs\<close> is called
  before the \<^verbatim>\<open>try\<close> (line 112), so what it raises reaches the caller (\<open>Inl\<close>); every
  exception from line 118 on is caught by \<^verbatim>\<open>except Exception\<close> and printed.
\<close>

definition save_papers_to_file :: "os_env \<Rightarrow> paper list \<Rightarrow> string \<Rightarrow> string \<Rightarrow> exn + saved" where
  "save_papers_to_file env papers folder_path filename =
     (case makedirs_error env folder_path of Some e \<Rightarrow> Inl e
      | None \<Rightarrow>
         (let path = os_path_join folder_path filename;
              done = (\<lambda>text r. Inr \<lparr>folder = folder_path, file_path = path, file_text = text, printed = r\<rparr>)
          in case open_error env path of Some e \<Rightarrow> done None (Failed e)
             | None \<Rightarrow> (case write_error env 0 of Some e \<Rightarrow> done (Some []) (Failed e)
             | None \<Rightarrow> (case write_rows env 1 (csv_row headers) papers of
                 (out, Some e) \<Rightarrow> done (Some out) (Failed e)
               | (out, None) \<Rightarrow> (case close_error env of Some e \<Rightarrow> done (Some out) (Failed e)
               | None \<Rightarrow> done (Some out) (Saved (length papers) path))))))"

text \<open>An operating system on which nothing fails.\<close>

definition no_failure :: os_env where
  "no_failure = \<lparr>makedirs_error = (\<lambda>p. None), open_error = (\<lambda>p. None),
     write_error = (\<lambda>k. None), close_error = None\<rparr>"

section \<open>Reading a CSV file back\<close>

text \<open>
  The lines of a text as iterating over a file opened with \<^verbatim>\<open>newline=''\<close> gives them: a
  line ends after a line feed, or after a carriage return that no line feed follows.
\<close>

definition line_ends :: "char \<Rightarrow> string \<Rightarrow> bool" where
  "line_ends c cs = (c = LF \<or> (c = CR \<and> (case cs of [] \<Rightarrow> True | d # ds \<Rightarrow> d \<noteq> LF)))"

fun splitlines :: "string \<Rightarrow> string \<Rightarrow> string list" where
  "splitlines cur [] = (if cur = [] then [] else [cur])"
| "splitlines cur (c # cs) =
     (if line_ends c cs then (cur @ [c]) # splitlines [] cs else splitlines (cur @ [c]) cs)"

definition file_lines :: "string \<Rightarrow> string list" where
  "file_lines text = splitlines [] text"

text \<open>
  The reader of the \<^verbatim>\<open>csv\<close> module with the default dialect, as the state machine of
  its parser. The parser keeps the state, the field being read and the fields of the
  record being read. It is given the characters of each line one by one, and then an
  end-of-line mark (\<open>None\<close>); after that mark a parser in state \<open>START_RECORD\<close> has a
  complete record.
\<close>

datatype rstate = START_RECORD | START_FIELD | IN_FIELD | IN_QUOTED_FIELD
  | QUOTE_IN_QUOTED_FIELD | EAT_CRNL

datatype csv_error = NewlineInUnquotedField

type_synonym parser = "rstate \<times> string \<times> string list"

definition start_field :: "string \<Rightarrow> string list \<Rightarrow> char option \<Rightarrow> parser" where
  "start_field field flds c =
     (case c of None \<Rightarrow> (START_RECORD, [], flds @ [field])
      | Some ch \<Rightarrow>
          if ch = LF \<or> ch = CR then (EAT_CRNL, [], flds @ [field])
          else if ch = dquote then (IN_QUOTED_FIELD, field, flds)
          else if ch = CHR '','' then (START_FIELD, [], flds @ [field])
          else (IN_FIELD, field @ [ch], flds))"

fun process_char :: "parser \<Rightarrow> char option \<Rightarrow> csv_error + parser" where
  "process_char (START_RECORD, field, flds) c =
     (case c of None \<Rightarrow> Inr (START_RECORD, field, flds)
      | Some ch \<Rightarrow>
          if ch = LF \<or> ch = CR then Inr (EAT_CRNL, field, flds)
          else Inr (start_field field flds c))"
| "process_char (START_FIELD, field, flds) c = Inr (start_field field flds c)"
| "process_char (IN_FIELD, field, flds) c =
     (case c of None \<Rightarrow> Inr (START_RECORD, [], flds @ [field])
      | Some ch \<Rightarrow>
          if ch = LF \<or> ch = CR then Inr (EAT_CRNL, [], flds @ [field])
          else if ch = CHR '','' then Inr (START_FIELD, [], flds @ [field])
          else Inr (IN_FIELD, field @ [ch], flds))"
| "process_char (IN_QUOTED_FIELD, field, flds) c =
     (case c of None \<Rightarrow> Inr (IN_QUOTED_FIELD, field, flds)
      | Some ch \<Rightarrow>
          if ch = dquote then Inr (QUOTE_IN_QUOTED_FIELD, field, flds)
          else Inr (IN_QUOTED_FIELD, field @ [ch], flds))"
| "process_char (QUOTE_IN_QUOTED_FIELD, field, flds) c =
     (case c of None \<Rightarrow> Inr (START_RECORD, [], flds @ [field])
      | Some ch \<Rightarrow>
          if ch = dquote then Inr (IN_QUOTED_FIELD, field @ [ch], flds)
          else if ch = CHR '','' then Inr (START_FIELD, [], flds @ [field])
          else if ch = LF \<or> ch = CR then Inr (EAT_CRNL, [], flds @ [field])
          else Inr (IN_FIELD, field @ [ch], flds))"
| "process_char (EAT_CRNL, field, flds) c =
     (case c of None \<Rightarrow> Inr (START_RECORD, field, flds)
      | Some ch \<Rightarrow>
          if ch = LF \<or> ch = CR then Inr (EAT_CRNL, field, flds)
          else Inl NewlineInUnquotedField)"

text \<open>
  The end of the input: a line without terminator still gets its end-of-line mark, and a
  record cut off inside a field is returned with that field.
\<close>

definition at_eof :: "parser \<Rightarrow> string list list \<Rightarrow> bool \<Rightarrow> csv_error + string list list" where
  "at_eof p rows midline =
     (case (if midline then process_char p None else Inr p) of Inl e \<Rightarrow> Inl e
      | Inr (st, field, flds) \<Rightarrow>
          if midline \<and> st = START_RECORD then Inr (rows @ [flds])
          else if field \<noteq> [] \<or> st = IN_QUOTED_FIELD then Inr (rows @ [flds @ [field]])
          else Inr rows)"

fun read_chars :: "parser \<Rightarrow> string list list \<Rightarrow> bool \<Rightarrow> string \<Rightarrow> csv_error + string list list" where
  "read_chars p rows midline [] = at_eof p rows midline"
| "read_chars p rows midline (c # cs) =
     (case process_char p (Some c) of Inl e \<Rightarrow> Inl e
      | Inr p1 \<Rightarrow>
          if line_ends c cs then
            (case process_char p1 None of Inl e \<Rightarrow> Inl e
             | Inr (st, field, flds) \<Rightarrow>
                 if st = START_RECORD then read_chars (START_RECORD, [], []) (rows @ [flds]) False cs
                 else read_chars (st, field, flds) rows False cs)
          else read_chars p1 rows True cs)"

definition csv_reader :: "string \<Rightarrow> csv_error + string list list" where
  "csv_reader text = read_chars (START_RECORD, [], []) [] False text"

section \<open>Notions used in the statements\<close>

text \<open>
  The records built before the request number \<open>i\<close> is sent: what the loop has in
  \<^verbatim>\<open>papers\<close> after the first \<open>i\<close> offsets.
\<close>

definition accumulated :: "api \<Rightarrow> string \<Rightarrow> int \<Rightarrow> int \<Rightarrow> nat \<Rightarrow> paper list" where
  "accumulated service q max_papers batch_size i =
     (case py_range 0 max_papers batch_size of Inl e \<Rightarrow> []
      | Inr offs \<Rightarrow> fst (fetch_loop service q max_papers batch_size [] (take i offs)))"

text \<open>
  The results a reply carries: the list under \<^verbatim>\<open>data\<close> of a decoded body that is a
  dict; a dict without that key carries none.
\<close>

definition returned_results :: "reply \<Rightarrow> json list option" where
  "returned_results r =
     (case r of
        Response st (Some (JObj kvs)) \<Rightarrow>
          (case map_of kvs ''data'' of None \<Rightarrow> Some [] | Some (JList xs) \<Rightarrow> Some xs
           | Some v \<Rightarrow> None)
      | _ \<Rightarrow> None)"

text \<open>
  A request that fails: no response at all, a status for which
  \<^verbatim>\<open>raise_for_status\<close> raises, or a body that is not JSON.
\<close>

definition request_failed :: "reply \<Rightarrow> bool" where
  "request_failed r =
     (case r of ConnectionError \<Rightarrow> True
      | Response st body \<Rightarrow> (400 \<le> st \<and> st < 600) \<or> body = None)"

section \<open>Concrete runs\<close>

definition blank_paper :: paper where
  "blank_paper = \<lparr>title = JStr ''No title'', summary = JStr ''No abstract available'',
     authors = [], published = JStr ''Unknown'', pdf_url = JStr ''No URL available'',
     references = ''No references available''\<rparr>"

text \<open>A page of \<open>n\<close> entries, each an empty dict, with status 200.\<close>

definition page_of :: "nat \<Rightarrow> reply" where
  "page_of n = Response 200 (Some (JObj [(''data'', JList (replicate n (JObj [])))]))"

definition request :: "int \<Rightarrow> int \<Rightarrow> params" where
  "request off lim = \<lparr>query = ''q'', offset = off, limit = lim,
     fields_p = ''title,authors,abstract,year,url,references''\<rparr>"

text \<open>A service that answers the first request with two entries and the others with one.\<close>

definition greedy_api :: api where
  "greedy_api ps = (if offset ps = 0 then page_of 2 else page_of 1)"

text \<open>A service that answers every request with two entries.\<close>

definition steady_api :: api where
  "steady_api ps = page_of 2"

text \<open>A service that answers every request with one entry.\<close>

definition short_api :: api where
  "short_api ps = page_of 1"

text \<open>A service that answers every request with status 500 and a body that is not JSON.\<close>

definition failing_api :: api where
  "failing_api ps = Response 500 None"

text \<open>
  A service that answers the first request with status 300 and a page of one entry, and
  the others with an empty page.
\<close>

definition redirect_api :: api where
  "redirect_api ps =
     (if offset ps = 0 then Response 300 (Some (JObj [(''data'', JList [JObj []])]))
      else page_of 0)"

section \<open>Notions used in the statements about records\<close>

text \<open>
  The citation of a reference as the specification words it: the index in brackets, the
  author names joined with commas, the quoted title, the year.
\<close>

definition citation :: "nat \<Rightarrow> string list \<Rightarrow> json \<Rightarrow> json \<Rightarrow> string" where
  "citation idx names ref_title ref_year =
     ''['' @ string_of_nat idx @ ''] '' @ join '', '' names @ '', '' @ [dquote]
     @ py_str ref_title @ '','' @ [dquote] @ '' '' @ py_str ref_year @ ''.''"

definition semicolon_free :: "string \<Rightarrow> bool" where
  "semicolon_free s = (CHR '';'' \<notin> set s)"

text \<open>An entry whose only reference has a semicolon in its title, and its record.\<close>

definition semicolon_entry :: json where
  "semicolon_entry = JObj [(''references'', JList [JObj [(''title'', JStr ''a;b'')]])]"

definition semicolon_paper :: paper where
  "semicolon_paper = blank_paper\<lparr>references := ''[1] , '' @ [dquote] @ ''a;b,'' @ [dquote] @ '' Unknown.''\<rparr>"

text \<open>An entry whose abstract is \<^verbatim>\<open>null\<close>, as the service sends for a paper without abstract.\<close>

definition null_abstract_entry :: json where
  "null_abstract_entry = JObj [(''title'', JStr ''T''), (''abstract'', JNull)]"

definition null_abstract_paper :: paper where
  "null_abstract_paper = blank_paper\<lparr>title := JStr ''T'', summary := JNull\<rparr>"

section \<open>Notions used in the statements about the exporter\<close>

text \<open>No call to the operating system fails while \<open>n\<close> records are saved.\<close>

definition nothing_fails :: "os_env \<Rightarrow> string \<Rightarrow> string \<Rightarrow> nat \<Rightarrow> bool" where
  "nothing_fails env folder_path filename n =
     (makedirs_error env folder_path = None
      \<and> open_error env (os_path_join folder_path filename) = None
      \<and> list_all (\<lambda>k. write_error env k = None) [0 ..< Suc n]
      \<and> close_error env = None)"

text \<open>An operating system on which the folder cannot be made, and one on which the file cannot be opened.\<close>

definition no_folder :: os_env where
  "no_folder = no_failure\<lparr>makedirs_error := (\<lambda>p. Some OSError)\<rparr>"

definition no_file :: os_env where
  "no_file = no_failure\<lparr>open_error := (\<lambda>p. Some OSError)\<rparr>"

text \<open>A character that the writer leaves unquoted.\<close>

definition plain :: "char \<Rightarrow> bool" where
  "plain c = (c \<noteq> CHR '','' \<and> c \<noteq> dquote \<and> c \<noteq> CR \<and> c \<noteq> LF)"

definition header_line :: string where
  "header_line = ''Title,Authors,Published,Summary,PDF URL,References'' @ [CR, LF]"

text \<open>An entry with two references, the second one an empty dict, and an entry with a year only.\<close>

definition two_refs :: "json list" where
  "two_refs =
     [JObj [(''title'', JStr ''Deep''), (''year'', JInt 2015),
            (''authors'', JList [JObj [(''name'', JStr ''A'')], JObj [(''name'', JStr ''B'')]])],
      JObj []]"

definition two_refs_entry :: json where
  "two_refs_entry = JObj [(''references'', JList two_refs)]"

definition two_refs_paper :: paper where
  "two_refs_paper = blank_paper\<lparr>references :=
     ''[1] A, B, '' @ [dquote] @ ''Deep,'' @ [dquote] @ '' 2015. [2] , '' @ [dquote]
     @ ''No title,'' @ [dquote] @ '' Unknown.''\<rparr>"

definition year_only_paper :: paper where
  "year_only_paper = blank_paper\<lparr>published := JInt 2020\<rparr>"

text \<open>
  The round trip of claim C6 as the claim words it: the rows read back are the header
  and one row per record, in order, whose Title, Published and PDF URL cells are equal
  to the fields of the record and whose Authors cell is the join of the authors.
\<close>

definition roundtrip_exact :: "paper list \<Rightarrow> string list list \<Rightarrow> bool" where
  "roundtrip_exact papers rows =
     (length rows = Suc (length papers) \<and> rows ! 0 = headers
      \<and> list_all (\<lambda>i. JStr (rows ! Suc i ! 0) = title (papers ! i)
            \<and> py_join '', '' (authors (papers ! i)) = Inr (rows ! Suc i ! 1)
            \<and> JStr (rows ! Suc i ! 2) = published (papers ! i)
            \<and> JStr (rows ! Suc i ! 4) = pdf_url (papers ! i)) [0 ..< length papers])"

text \<open>
  The cells of the row of a record whose authors are all strings: each field as the
  writer writes it, the authors joined.
\<close>

fun is_str :: "json \<Rightarrow> bool" where
  "is_str (JStr s) = True"
| "is_str v = False"

definition author_strings :: "paper \<Rightarrow> string list" where
  "author_strings p = map (\<lambda>a. case a of JStr s \<Rightarrow> s | _ \<Rightarrow> []) (authors p)"

definition cells_of :: "paper \<Rightarrow> string list" where
  "cells_of p =
     [csv_cell (title p), join '', '' (author_strings p), csv_cell (published p),
      csv_cell (summary p), csv_cell (pdf_url p), references p]"

text \<open>A record with the year 2020, one whose year is \<^verbatim>\<open>None\<close>, and the file made of them.\<close>

definition null_year_paper :: paper where
  "null_year_paper = blank_paper\<lparr>authors := [JStr ''A'', JStr ''B''], published := JNull\<rparr>"

definition two_rows_text :: string where
  "two_rows_text = header_line
     @ ''No title,,2020,No abstract available,No URL available,No references available'' @ [CR, LF]
     @ ''No title,'' @ [dquote] @ ''A, B'' @ [dquote]
     @ '',,No abstract available,No URL available,No references available'' @ [CR, LF]"

definition two_rows :: "string list list" where
  "two_rows =
     [headers,
      [''No title'', [], ''2020'', ''No abstract available'', ''No URL available'',
       ''No references available''],
      [''No title'', ''A, B'', [], ''No abstract available'', ''No URL available'',
       ''No references available'']]"

section \<open>Well-formed entries\<close>

text \<open>
  An entry as the service documents it, every field optional: title, abstract and url
  are strings or \<^verbatim>\<open>null\<close>, the year is an integer or \<^verbatim>\<open>null\<close>, the authors are a list of
  dicts with a string under \<^verbatim>\<open>name\<close>, the references a list of dicts with title, year
  and authors of the same kind.
\<close>

definition text_ok :: "json \<Rightarrow> bool" where
  "text_ok v = (case v of JStr s \<Rightarrow> True | JNull \<Rightarrow> True | _ \<Rightarrow> False)"

definition year_ok :: "json \<Rightarrow> bool" where
  "year_ok v = (case v of JInt i \<Rightarrow> True | JNull \<Rightarrow> True | _ \<Rightarrow> False)"

definition field_ok :: "(json \<Rightarrow> bool) \<Rightarrow> (string \<times> json) list \<Rightarrow> string \<Rightarrow> bool" where
  "field_ok ok kvs key = (case map_of kvs key of None \<Rightarrow> True | Some v \<Rightarrow> ok v)"

definition name_ok :: "json \<Rightarrow> bool" where
  "name_ok a =
     (case a of
        JObj kvs \<Rightarrow> (case map_of kvs ''name'' of Some (JStr s) \<Rightarrow> True | _ \<Rightarrow> False)
      | _ \<Rightarrow> False)"

definition authors_ok :: "json \<Rightarrow> bool" where
  "authors_ok v = (case v of JList as \<Rightarrow> list_all name_ok as | _ \<Rightarrow> False)"

definition ref_ok :: "json \<Rightarrow> bool" where
  "ref_ok r =
     (case r of
        JObj kvs \<Rightarrow> field_ok text_ok kvs ''title'' \<and> field_ok year_ok kvs ''year''
          \<and> field_ok authors_ok kvs ''authors''
      | _ \<Rightarrow> False)"

definition refs_ok :: "json \<Rightarrow> bool" where
  "refs_ok v = (case v of JList rs \<Rightarrow> list_all ref_ok rs | _ \<Rightarrow> False)"

definition well_formed_entry :: "json \<Rightarrow> bool" where
  "well_formed_entry e =
     (case e of
        JObj kvs \<Rightarrow> field_ok text_ok kvs ''title'' \<and> field_ok text_ok kvs ''abstract''
          \<and> field_ok year_ok kvs ''year'' \<and> field_ok text_ok kvs ''url''
          \<and> field_ok authors_ok kvs ''authors'' \<and> field_ok refs_ok kvs ''references''
      | _ \<Rightarrow> False)"

text \<open>A string without line break, and a record whose cells are such strings.\<close>

definition single_line :: "string \<Rightarrow> bool" where
  "single_line s = (CR \<notin> set s \<and> LF \<notin> set s)"

definition one_line_cells :: "paper \<Rightarrow> bool" where
  "one_line_cells p = list_all single_line (cells_of p)"

text \<open>
  The only request of the run of claim C8; an entry, its record, and a service with one
  page of ten such entries.
\<close>

definition ml_request :: params where
  "ml_request = \<lparr>query = ''machine learning'', offset = 0, limit = 10,
     fields_p = ''title,authors,abstract,year,url,references''\<rparr>"

definition sample_entry :: json where
  "sample_entry =
     JObj [(''title'', JStr ''Learning, fast''), (''abstract'', JNull), (''year'', JInt 2021),
           (''url'', JStr ''https://example.org/p''),
           (''authors'', JList [JObj [(''name'', JStr ''Ada'')], JObj [(''name'', JStr ''Bo'')]]),
           (''references'', JList two_refs)]"

definition sample_paper :: paper where
  "sample_paper = \<lparr>title = JStr ''Learning, fast'', summary = JNull,
     authors = [JStr ''Ada'', JStr ''Bo''], published = JInt 2021,
     pdf_url = JStr ''https://example.org/p'', references = references two_refs_paper\<rparr>"

definition sample_page :: "(string \<times> json) list" where
  "sample_page = [(''total'', JInt 10), (''data'', JList (replicate 10 sample_entry))]"

definition one_page_api :: api where
  "one_page_api ps =
     (if offset ps = 0 then Response 200 (Some (JObj sample_page))
      else Response 200 (Some (JObj [(''data'', JList [])])))"

text \<open>
  An entry whose abstract has two lines, its record, the row written for it, the file
  of ten such rows, and a service with one page of ten such entries.
\<close>

definition multiline_entry :: json where
  "multiline_entry =
     JObj [(''title'', JStr ''T''), (''abstract'', JStr (''first'' @ [LF] @ ''second''))]"

definition multiline_paper :: paper where
  "multiline_paper =
     blank_paper\<lparr>title := JStr ''T'', summary := JStr (''first'' @ [LF] @ ''second'')\<rparr>"

definition multiline_row :: string where
  "multiline_row = ''T,,Unknown,'' @ [dquote] @ ''first'' @ [LF] @ ''second'' @ [dquote]
     @ '',No URL available,No references available'' @ [CR, LF]"

definition multiline_text :: string where
  "multiline_text = header_line @ concat (replicate 10 multiline_row)"

definition multiline_api :: api where
  "multiline_api ps =
     (if offset ps = 0
      then Response 200 (Some (JObj [(''data'', JList (replicate 10 multiline_entry))]))
      else Response 200 (Some (JObj [(''data'', JList [])])))"

section \<open>The loop of the fetcher\<close>

lemma handler_Break: "handler e = Break"
  by (cases e) simp_all

lemma fetch_page_params:
  "fetch_page service q mp bs papers off = (ps, papers', fl) \<Longrightarrow>
   ps = make_params q mp bs papers off"
  by (auto simp: fetch_page_def Let_def split: prod.splits sum.splits)

text \<open>
  The page number \<open>i\<close> of a run, started from the records of the first \<open>i\<close> offsets:
  its parameters are the ones sent, a \<^verbatim>\<open>break\<close> makes it the last page and its records the
  result, and otherwise its records are those of the first \<open>i + 1\<close> offsets.
\<close>

lemma fetch_loop_nth:
  "fetch_loop service q mp bs papers offs = (res, sent) \<Longrightarrow> i < length sent \<Longrightarrow>
   fetch_page service q mp bs (fst (fetch_loop service q mp bs papers (take i offs))) (offs ! i)
     = (ps, papers', fl) \<Longrightarrow>
   ps = sent ! i \<and> (fl = Break \<longrightarrow> Suc i = length sent \<and> res = papers')
     \<and> (fl = Continue \<longrightarrow>
          fst (fetch_loop service q mp bs papers (take (Suc i) offs)) = papers')"
proof (induction offs arbitrary: papers res sent i)
  case Nil
  then show ?case by simp
next
  case (Cons off offs)
  show ?case
  proof (cases i)
    case 0
    with Cons.prems show ?thesis
      by (auto split: prod.splits flow.splits)
  next
    case (Suc j)
    obtain ps0 p0 f0 where pg: "fetch_page service q mp bs papers off = (ps0, p0, f0)"
      by (cases "fetch_page service q mp bs papers off") auto
    show ?thesis
    proof (cases f0)
      case Break
      with Cons.prems pg Suc show ?thesis by auto
    next
      case Continue
      obtain r1 s1 where rest: "fetch_loop service q mp bs p0 offs = (r1, s1)"
        by (cases "fetch_loop service q mp bs p0 offs") auto
      from Cons.prems(1) pg Continue rest have eq: "res = r1" "sent = ps0 # s1" by auto
      from Cons.prems(2) Suc eq have j: "j < length s1" by simp
      have a: "fst (fetch_loop service q mp bs papers (take i (off # offs)))
          = fst (fetch_loop service q mp bs p0 (take j offs))"
        using pg Continue Suc by (auto split: prod.splits)
      have b: "fst (fetch_loop service q mp bs papers (take (Suc i) (off # offs)))
          = fst (fetch_loop service q mp bs p0 (take (Suc j) offs))"
        using pg Continue Suc by (auto split: prod.splits)
      from Cons.prems(3) a Suc
      have c: "fetch_page service q mp bs (fst (fetch_loop service q mp bs p0 (take j offs)))
          (offs ! j) = (ps, papers', fl)"
        by simp
      from Cons.IH[OF rest j c] show ?thesis using eq Suc b by simp
    qed
  qed
qed

lemma fetch_page_failed:
  "request_failed (service (make_params q mp bs papers off)) \<Longrightarrow>
   fetch_page service q mp bs papers off = (make_params q mp bs papers off, papers, Break)"
  by (auto simp: fetch_page_def try_page_def request_failed_def raise_for_status_def Let_def
      split: reply.splits option.splits)

lemma process_data_short:
  assumes "returned_results (Response st (Some data)) = Some xs" "int (length xs) < bs"
    "process_data mp bs papers data = (papers', r)"
  shows "r \<noteq> Inr Continue"
  using assms
  by (auto simp: returned_results_def process_data_def
      split: json.splits option.splits sum.splits bool.splits if_splits prod.splits)

lemma fetch_page_short:
  assumes "returned_results (service (make_params q mp bs papers off)) = Some xs"
    "int (length xs) < bs"
  shows "snd (snd (fetch_page service q mp bs papers off)) = Break"
proof -
  obtain st data where r: "service (make_params q mp bs papers off) = Response st (Some data)"
    using assms(1) by (auto simp: returned_results_def split: reply.splits option.splits)
  obtain p' r' where pd: "process_data mp bs papers data = (p', r')"
    by (cases "process_data mp bs papers data") auto
  from process_data_short[OF assms(1)[unfolded r] assms(2) pd] have "r' \<noteq> Inr Continue" .
  then show ?thesis using r pd
    by (cases r'; cases "projr r'")
      (auto simp: fetch_page_def try_page_def Let_def handler_Break split: option.splits)
qed

text \<open>
  When \<^verbatim>\<open>batch_size\<close> is positive, \<^verbatim>\<open>max_papers\<close> is not negative and no page carries
  more results than \<^verbatim>\<open>batch_size\<close>, the list returned has at most \<^verbatim>\<open>max_papers\<close>
  records: every page then starts below the maximum, and the test after each append
  stops at it.
\<close>

lemma append_entries_bound:
  "int (length papers) < mp \<Longrightarrow> append_entries mp papers es = (ps', x) \<Longrightarrow>
   int (length ps') \<le> mp \<and> length ps' \<le> length papers + length es"
proof (induction es arbitrary: papers)
  case Nil
  then show ?case by simp
next
  case (Cons e es)
  show ?case
  proof (cases "make_paper e")
    case (Inl err)
    with Cons.prems show ?thesis by simp
  next
    case (Inr p)
    show ?thesis
    proof (cases "int (length (papers @ [p])) \<ge> mp")
      case True
      with Inr Cons.prems show ?thesis by auto
    next
      case False
      with Inr Cons.prems have r: "append_entries mp (papers @ [p]) es = (ps', x)" by simp
      from False have "int (length (papers @ [p])) < mp" by simp
      from Cons.IH[OF this r] show ?thesis by simp
    qed
  qed
qed

lemma append_entries_not_dict:
  "es \<noteq> [] \<Longrightarrow> \<forall>e\<in>set es. make_paper e = Inl AttributeError \<Longrightarrow>
   append_entries mp papers es = (papers, Some AttributeError)"
  by (cases es) auto

lemma process_data_bound:
  assumes "int (length papers) < mp" "0 \<le> bs"
    "\<forall>xs. returned_results (Response st (Some data)) = Some xs \<longrightarrow> int (length xs) \<le> bs"
    "process_data mp bs papers data = (ps', r)"
  shows "int (length ps') \<le> mp \<and> int (length ps') \<le> int (length papers) + bs"
proof (cases "\<exists>kvs xs. data = JObj kvs \<and> map_of kvs ''data'' = Some (JList xs) \<and> xs \<noteq> []")
  case True
  then obtain kvs xs where d: "data = JObj kvs" "map_of kvs ''data'' = Some (JList xs)" "xs \<noteq> []"
    by blast
  with assms(3) have len: "int (length xs) \<le> bs" by (simp add: returned_results_def)
  obtain p1 x1 where ap: "append_entries mp papers xs = (p1, x1)"
    by (cases "append_entries mp papers xs") auto
  from append_entries_bound[OF assms(1) ap] len
  have "int (length p1) \<le> mp \<and> int (length p1) \<le> int (length papers) + bs" by linarith
  moreover from assms(4) d ap have "ps' = p1"
    by (auto simp: process_data_def split: option.splits if_splits)
  ultimately show ?thesis by simp
next
  case False
  have nd: "make_paper (JStr s) = Inl AttributeError" for s
    by (simp add: make_paper_def)
  have "ps' = papers"
  proof (cases data)
    case (JObj kvs)
    show ?thesis
    proof (cases "map_of kvs ''data''")
      case None
      with JObj assms(4) show ?thesis by (simp add: process_data_def)
    next
      case (Some d)
      show ?thesis
      proof (cases d)
        case (JList xs)
        with False JObj Some have "xs = []" by simp
        with JList JObj Some assms(4) show ?thesis by (simp add: process_data_def)
      next
        case (JStr s)
        have "append_entries mp papers (map (\<lambda>c. JStr [c]) s) = (papers, Some AttributeError)"
          if "s \<noteq> []"
          using that by (intro append_entries_not_dict) (auto simp: nd)
        with JStr JObj Some assms(4) show ?thesis
          by (auto simp: process_data_def split: if_splits)
      next
        case (JObj kvs')
        have "append_entries mp papers (map (\<lambda>(k, v). JStr k) kvs') = (papers, Some AttributeError)"
          if "kvs' \<noteq> []"
          using that by (intro append_entries_not_dict) (auto simp: nd)
        with JObj \<open>data = JObj kvs\<close> Some assms(4) show ?thesis
          by (auto simp: process_data_def split: if_splits)
      qed (use JObj Some assms(4) in \<open>auto simp: process_data_def split: if_splits\<close>)
    qed
  qed (use assms(4) in \<open>auto simp: process_data_def split: if_splits bool.splits\<close>)
  with assms(1,2) show ?thesis by simp
qed

lemma fetch_page_bound:
  assumes "int (length papers) < mp" "0 \<le> bs"
    "\<forall>ps xs. returned_results (service ps) = Some xs \<longrightarrow> int (length xs) \<le> bs"
    "fetch_page service q mp bs papers off = (ps, ps', fl)"
  shows "int (length ps') \<le> mp \<and> int (length ps') \<le> int (length papers) + bs"
proof -
  let ?ps = "make_params q mp bs papers off"
  show ?thesis
  proof (cases "\<exists>st data. service ?ps = Response st (Some data) \<and> raise_for_status st = None")
    case True
    then obtain st data where s: "service ?ps = Response st (Some data)" "raise_for_status st = None"
      by blast
    obtain p1 r1 where pd: "process_data mp bs papers data = (p1, r1)"
      by (cases "process_data mp bs papers data") auto
    from assms(3) s(1)
    have "\<forall>xs. returned_results (Response st (Some data)) = Some xs \<longrightarrow> int (length xs) \<le> bs"
      by metis
    from process_data_bound[OF assms(1,2) this pd]
    have "int (length p1) \<le> mp \<and> int (length p1) \<le> int (length papers) + bs" .
    moreover from assms(4) s pd have "ps' = p1"
      by (auto simp: fetch_page_def try_page_def Let_def split: sum.splits)
    ultimately show ?thesis by simp
  next
    case False
    with assms(4) have "ps' = papers"
      by (auto simp: fetch_page_def try_page_def Let_def split: reply.splits option.splits)
    with assms(1,2) show ?thesis by simp
  qed
qed

lemma fetch_loop_bound:
  assumes "0 \<le> bs"
    "\<forall>ps xs. returned_results (service ps) = Some xs \<longrightarrow> int (length xs) \<le> bs"
  shows "int (length papers) \<le> start \<Longrightarrow> int (length papers) \<le> mp \<Longrightarrow>
    \<forall>i<n. start + int i * bs < mp \<Longrightarrow>
    fetch_loop service q mp bs papers (map (\<lambda>i. start + int i * bs) [0 ..< n]) = (result, sent) \<Longrightarrow>
    int (length result) \<le> mp"
proof (induction n arbitrary: start papers sent result)
  case 0
  then show ?case by simp
next
  case (Suc n)
  have offs: "map (\<lambda>i. start + int i * bs) [0 ..< Suc n]
      = start # map (\<lambda>i. (start + bs) + int i * bs) [0 ..< n]"
    by (simp add: upt_conv_Cons map_Suc_upt[symmetric] algebra_simps del: upt_Suc)
  from Suc.prems(3) have lt: "start < mp" by force
  with Suc.prems(1) have small: "int (length papers) < mp" by simp
  obtain ps p1 fl where pg: "fetch_page service q mp bs papers start = (ps, p1, fl)"
    by (cases "fetch_page service q mp bs papers start") auto
  from fetch_page_bound[OF small assms pg] Suc.prems(1)
  have b: "int (length p1) \<le> mp" "int (length p1) \<le> start + bs" by simp_all
  show ?case
  proof (cases fl)
    case Break
    with Suc.prems(4) pg b(1) show ?thesis unfolding offs by simp
  next
    case Continue
    obtain r1 s1 where rest: "fetch_loop service q mp bs p1
        (map (\<lambda>i. (start + bs) + int i * bs) [0 ..< n]) = (r1, s1)"
      by (cases "fetch_loop service q mp bs p1 (map (\<lambda>i. (start + bs) + int i * bs) [0 ..< n])") auto
    have nxt: "\<forall>i<n. (start + bs) + int i * bs < mp"
    proof (intro allI impI)
      fix i assume "i < n"
      then have "Suc i < Suc n" by simp
      with Suc.prems(3) have "start + int (Suc i) * bs < mp" by blast
      then show "(start + bs) + int i * bs < mp" by (simp add: algebra_simps)
    qed
    from Suc.IH[OF b(2) b(1) nxt rest] Suc.prems(4) pg Continue rest show ?thesis
      unfolding offs by simp
  qed
qed

lemma search_within_max_papers:
  assumes "0 < bs" "0 \<le> mp"
    "\<forall>ps xs. returned_results (service ps) = Some xs \<longrightarrow> int (length xs) \<le> bs"
    "search_semantic_scholar service q mp bs = Inr (result, sent)"
  shows "int (length result) \<le> mp"
proof -
  let ?n = "nat ((mp - 0 + bs - 1) div bs)"
  from assms(1,4) have loop: "fetch_loop service q mp bs []
      (map (\<lambda>i. 0 + int i * bs) [0 ..< ?n]) = (result, sent)"
    by (simp add: search_semantic_scholar_def py_range_def)
  have "\<forall>i<?n. 0 + int i * bs < mp"
  proof (intro allI impI)
    fix i assume "i < ?n"
    then have "int i + 1 \<le> (mp + bs - 1) div bs" by simp
    then have "(int i + 1) * bs \<le> ((mp + bs - 1) div bs) * bs"
      using assms(1) by (simp add: mult_right_mono)
    also have "\<dots> \<le> mp + bs - 1"
      using assms(1) by (metis div_mult_mod_eq add.commute le_add_same_cancel2 pos_mod_sign)
    finally show "0 + int i * bs < mp" by (simp add: algebra_simps)
  qed
  from fetch_loop_bound[OF _ assms(3) _ _ this loop] assms(1,2) show ?thesis by simp
qed

section \<open>Claims about the fetcher\<close>

text \<open>
  Claim C1 says that the list returned is never longer than \<^verbatim>\<open>max_papers\<close>, whatever the
  service answers. The code tests the length only after it has appended a record, and
  its \<^verbatim>\<open>break\<close> leaves the loop over the entries, not the loop over the offsets. With
  \<^verbatim>\<open>max_papers = 2\<close> and \<^verbatim>\<open>batch_size = 1\<close>, a service that answers the first request
  with two entries fills the list, the second request is still sent (with limit 0), and
  the entry it brings back is appended: three records are returned.
\<close>

theorem search_exceeds_max_papers:
  "search_semantic_scholar greedy_api ''q'' 2 1
     = Inr ([blank_paper, blank_paper, blank_paper], [request 0 1, request 1 0])"
  by code_simp

text \<open>
  Claim C2, amended: in a run that sends requests (\<^verbatim>\<open>batch_size\<close> is then not 0) the
  call returns normally; a request that fails with a transport error, with a status from
  400 to 599 or with a body that is not JSON is the last one sent, and the list returned
  is the one accumulated from the pages before it, hence empty when the first request
  fails.
\<close>

theorem failed_request_stops_pagination:
  assumes "bs \<noteq> 0"
  shows "\<exists>result sent. search_semantic_scholar service q mp bs = Inr (result, sent)
     \<and> (\<forall>i<length sent. request_failed (service (sent ! i)) \<longrightarrow>
          Suc i = length sent \<and> result = accumulated service q mp bs i
          \<and> (i = 0 \<longrightarrow> result = []))"
proof -
  from assms obtain offs where offs: "py_range 0 mp bs = Inr offs"
    by (cases "0 < bs") (auto simp: py_range_def)
  obtain result sent where loop: "fetch_loop service q mp bs [] offs = (result, sent)"
    by (cases "fetch_loop service q mp bs [] offs") auto
  have s: "search_semantic_scholar service q mp bs = Inr (result, sent)"
    by (simp add: search_semantic_scholar_def offs loop)
  have "Suc i = length sent \<and> result = accumulated service q mp bs i \<and> (i = 0 \<longrightarrow> result = [])"
    if i: "i < length sent" and f: "request_failed (service (sent ! i))" for i
  proof -
    let ?acc = "fst (fetch_loop service q mp bs [] (take i offs))"
    obtain ps p' fl where pg: "fetch_page service q mp bs ?acc (offs ! i) = (ps, p', fl)"
      by (cases "fetch_page service q mp bs ?acc (offs ! i)") auto
    from fetch_loop_nth[OF loop i pg]
    have n: "ps = sent ! i" "fl = Break \<longrightarrow> Suc i = length sent \<and> result = p'" by simp_all
    from n(1) fetch_page_params[OF pg]
    have "sent ! i = make_params q mp bs ?acc (offs ! i)" by simp
    with f have "request_failed (service (make_params q mp bs ?acc (offs ! i)))" by simp
    from fetch_page_failed[where service = service, OF this] pg
    have "fl = Break" "p' = ?acc" by simp_all
    with n(2) show ?thesis by (auto simp: accumulated_def offs)
  qed
  with s show ?thesis by blast
qed

theorem failed_request_stops_pagination_witness:
  "(10::int) \<noteq> 0
   \<and> search_semantic_scholar failing_api ''q'' 10 10 = Inr ([], [request 0 10])
   \<and> request_failed (failing_api (request 0 10))"
proof -
  have run: "search_semantic_scholar failing_api ''q'' 10 10 = Inr ([], [request 0 10])"
    by code_simp
  have failed: "request_failed (failing_api (request 0 10))"
    by (simp add: request_failed_def failing_api_def)
  from failed_request_stops_pagination[of 10 failing_api "''q''" 10] run failed
  show ?thesis by simp
qed

text \<open>
  Claim C2 as stated fails for a status that is neither 2xx nor an error for
  \<^verbatim>\<open>raise_for_status\<close>: the page that comes with status 300 is read like any other, its
  entry is kept and the next request is sent.
\<close>

theorem non_2xx_status_continues:
  "redirect_api (request 0 1) = Response 300 (Some (JObj [(''data'', JList [JObj []])]))
   \<and> search_semantic_scholar redirect_api ''q'' 2 1
       = Inr ([blank_paper], [request 0 1, request 1 1])"
  by code_simp

text \<open>
  Claim C3: when the reply to a request carries fewer results than \<^verbatim>\<open>batch_size\<close>, that
  request is the last one sent.
\<close>

theorem no_request_after_short_page:
  assumes "search_semantic_scholar service q mp bs = Inr (result, sent)" "i < length sent"
    "returned_results (service (sent ! i)) = Some xs" "int (length xs) < bs"
  shows "Suc i = length sent"
proof -
  from assms(1) obtain offs where offs: "py_range 0 mp bs = Inr offs"
    and loop: "fetch_loop service q mp bs [] offs = (result, sent)"
    by (auto simp: search_semantic_scholar_def split: sum.splits)
  let ?acc = "fst (fetch_loop service q mp bs [] (take i offs))"
  obtain ps p' fl where pg: "fetch_page service q mp bs ?acc (offs ! i) = (ps, p', fl)"
    by (cases "fetch_page service q mp bs ?acc (offs ! i)") auto
  from fetch_loop_nth[OF loop assms(2) pg]
  have n: "ps = sent ! i" "fl = Break \<longrightarrow> Suc i = length sent" by simp_all
  from n(1) fetch_page_params[OF pg]
  have "sent ! i = make_params q mp bs ?acc (offs ! i)" by simp
  with assms(3)
  have "returned_results (service (make_params q mp bs ?acc (offs ! i))) = Some xs" by simp
  from fetch_page_short[where service = service and xs = xs, OF this assms(4)] pg
  have "fl = Break" by simp
  with n(2) show ?thesis by simp
qed

theorem no_request_after_short_page_witness:
  "search_semantic_scholar short_api ''q'' 4 2 = Inr ([blank_paper], [request 0 2])
   \<and> (0::nat) < length [request 0 2]
   \<and> returned_results (short_api ([request 0 2] ! 0)) = Some [JObj []]
   \<and> int (length [JObj []]) < 2
   \<and> Suc 0 = length [request 0 2]"
proof -
  have run: "search_semantic_scholar short_api ''q'' 4 2 = Inr ([blank_paper], [request 0 2])"
    by code_simp
  have res: "returned_results (short_api ([request 0 2] ! 0)) = Some [JObj []]"
    by (simp add: returned_results_def short_api_def page_of_def)
  from no_request_after_short_page[OF run _ res] run res show ?thesis by simp
qed

text \<open>
  Claim C9: the request number \<open>i\<close> of a run carries the limit
  \<^verbatim>\<open>min(batch_size, max_papers - len(papers))\<close> for the records accumulated when it is
  sent; the limit is at most \<^verbatim>\<open>batch_size\<close> and at most the number of records still
  missing.
\<close>

theorem limit_is_min_of_batch_and_remaining:
  assumes "search_semantic_scholar service q mp bs = Inr (result, sent)" "i < length sent"
  shows "limit (sent ! i) = min bs (mp - int (length (accumulated service q mp bs i)))
     \<and> limit (sent ! i) \<le> bs
     \<and> limit (sent ! i) \<le> mp - int (length (accumulated service q mp bs i))"
proof -
  from assms(1) obtain offs where offs: "py_range 0 mp bs = Inr offs"
    and loop: "fetch_loop service q mp bs [] offs = (result, sent)"
    by (auto simp: search_semantic_scholar_def split: sum.splits)
  let ?acc = "fst (fetch_loop service q mp bs [] (take i offs))"
  obtain ps p' fl where pg: "fetch_page service q mp bs ?acc (offs ! i) = (ps, p', fl)"
    by (cases "fetch_page service q mp bs ?acc (offs ! i)") auto
  from fetch_loop_nth[OF loop assms(2) pg] have "ps = sent ! i" by simp
  with fetch_page_params[OF pg] have "sent ! i = make_params q mp bs ?acc (offs ! i)" by simp
  then show ?thesis by (simp add: make_params_def accumulated_def offs)
qed

theorem limit_is_min_of_batch_and_remaining_witness:
  "search_semantic_scholar steady_api ''q'' 3 2
     = Inr ([blank_paper, blank_paper, blank_paper], [request 0 2, request 2 1])
   \<and> (1::nat) < length [request 0 2, request 2 1]
   \<and> accumulated steady_api ''q'' 3 2 1 = [blank_paper, blank_paper]
   \<and> limit ([request 0 2, request 2 1] ! 1) = min 2 (3 - int (length [blank_paper, blank_paper]))"
proof -
  have run: "search_semantic_scholar steady_api ''q'' 3 2
     = Inr ([blank_paper, blank_paper, blank_paper], [request 0 2, request 2 1])"
    by code_simp
  have acc: "accumulated steady_api ''q'' 3 2 1 = [blank_paper, blank_paper]"
    by code_simp
  from limit_is_min_of_batch_and_remaining[OF run, of 1] run acc show ?thesis by simp
qed

section \<open>The citations of a record\<close>

lemma try_map_as_str: "try_map as_str xs = Inr ss \<Longrightarrow> xs = map JStr ss"
proof (induction xs arbitrary: ss)
  case Nil
  then show ?case by simp
next
  case (Cons x xs)
  then show ?case
    by (cases x) (auto split: sum.splits)
qed

lemma py_join_Inr: "py_join sep xs = Inr s \<Longrightarrow> \<exists>ss. xs = map JStr ss \<and> s = join sep ss"
  by (auto simp: py_join_def split: sum.splits dest: try_map_as_str)

lemma format_reference_Inr:
  assumes "format_reference idx r = Inr f"
  shows "\<exists>names t y. author_names r = Inr (map JStr names)
     \<and> py_get r ''title'' (JStr ''No title'') = Inr t
     \<and> py_get r ''year'' (JStr ''Unknown'') = Inr y
     \<and> f = citation idx names t y"
  using assms
  by (auto simp: format_reference_def citation_def split: sum.splits dest!: py_join_Inr)

lemma format_references_Inr:
  "format_references k items = Inr frags \<Longrightarrow>
   length frags = length items \<and> (\<forall>i<length items. format_reference (k + i) (items ! i) = Inr (frags ! i))"
proof (induction items arbitrary: k frags)
  case Nil
  then show ?case by simp
next
  case (Cons r items)
  from Cons.prems obtain f fs where f: "format_reference k r = Inr f"
    and fs: "format_references (Suc k) items = Inr fs" and eq: "frags = f # fs"
    by (auto split: sum.splits)
  from Cons.IH[OF fs] f eq show ?case
    by (auto simp: nth_Cons split: nat.splits)
qed

lemma digit_char_semicolon: "digit_char d \<noteq> CHR '';''"
  by (simp add: digit_char_def)

lemma string_of_nat_semicolon_free: "semicolon_free (string_of_nat n)"
proof (induction n rule: string_of_nat.induct)
  case (1 n)
  then show ?case
    using digit_char_semicolon[of n] digit_char_semicolon[of "n mod 10"]
    by (subst string_of_nat.simps) (auto simp: semicolon_free_def)
qed

lemma join_semicolon_free:
  "\<forall>s\<in>set ss. semicolon_free s \<Longrightarrow> semicolon_free sep \<Longrightarrow> semicolon_free (join sep ss)"
  by (induction sep ss rule: join.induct) (auto simp: semicolon_free_def)

lemma citation_semicolon_free:
  assumes "\<forall>n\<in>set names. semicolon_free n" "semicolon_free (py_str t)" "semicolon_free (py_str y)"
  shows "semicolon_free (citation idx names t y)"
proof -
  have "semicolon_free (join '', '' names)"
    using assms(1) by (intro join_semicolon_free) (simp_all add: semicolon_free_def)
  with assms(2,3) string_of_nat_semicolon_free[of idx] show ?thesis
    by (simp add: citation_def semicolon_free_def dquote_def)
qed

section \<open>Claims about the records\<close>

text \<open>
  Claim C4, amended: for an entry that yields a record, with a reference list of \<open>N\<close>
  items, the field \<^verbatim>\<open>references\<close> is the sentinel when \<open>N = 0\<close>; otherwise it is \<open>N\<close>
  citations joined with one space, the citation number \<open>i\<close> (from 1) being the one of the
  item number \<open>i\<close> of the list: index in brackets, author names joined with commas, quoted
  title, year. A citation has no semicolon when the names, the title and the year it is
  made of have none.
\<close>

theorem references_are_numbered_citations:
  assumes "make_paper entry = Inr p" "py_get entry ''references'' (JList []) = Inr refs"
    "py_iter refs = Inr items"
  shows "(items = [] \<longrightarrow> references p = ''No references available'')
     \<and> (items \<noteq> [] \<longrightarrow> (\<exists>frags. length frags = length items
          \<and> references p = join '' '' frags
          \<and> (\<forall>i<length items. \<exists>names t y.
                author_names (items ! i) = Inr (map JStr names)
                \<and> py_get (items ! i) ''title'' (JStr ''No title'') = Inr t
                \<and> py_get (items ! i) ''year'' (JStr ''Unknown'') = Inr y
                \<and> frags ! i = citation (Suc i) names t y
                \<and> ((\<forall>n\<in>set names. semicolon_free n) \<and> semicolon_free (py_str t)
                     \<and> semicolon_free (py_str y) \<longrightarrow> semicolon_free (frags ! i)))))"
proof -
  from assms obtain frags where fr: "format_references 1 items = Inr frags"
    and rf: "references p = (if frags \<noteq> [] then join '' '' frags else ''No references available'')"
    by (auto simp: make_paper_def split: sum.splits)
  from format_references_Inr[OF fr] have len: "length frags = length items"
    and each: "\<forall>i<length items. format_reference (Suc i) (items ! i) = Inr (frags ! i)"
    by simp_all
  have cit: "\<exists>names t y. author_names (items ! i) = Inr (map JStr names)
                \<and> py_get (items ! i) ''title'' (JStr ''No title'') = Inr t
                \<and> py_get (items ! i) ''year'' (JStr ''Unknown'') = Inr y
                \<and> frags ! i = citation (Suc i) names t y
                \<and> ((\<forall>n\<in>set names. semicolon_free n) \<and> semicolon_free (py_str t)
                     \<and> semicolon_free (py_str y) \<longrightarrow> semicolon_free (frags ! i))"
    if "i < length items" for i
  proof -
    from each that have "format_reference (Suc i) (items ! i) = Inr (frags ! i)" by simp
    from format_reference_Inr[OF this] obtain names t y where
      a: "author_names (items ! i) = Inr (map JStr names)"
      "py_get (items ! i) ''title'' (JStr ''No title'') = Inr t"
      "py_get (items ! i) ''year'' (JStr ''Unknown'') = Inr y"
      "frags ! i = citation (Suc i) names t y" by blast
    with citation_semicolon_free[of names t y "Suc i"] show ?thesis by auto
  qed
  show ?thesis
  proof (cases "items = []")
    case True
    with len rf show ?thesis by simp
  next
    case False
    with len have "frags \<noteq> []" by auto
    with rf have "references p = join '' '' frags" by simp
    with len cit False show ?thesis by blast
  qed
qed

theorem references_are_numbered_citations_witness:
  "make_paper two_refs_entry = Inr two_refs_paper
   \<and> py_get two_refs_entry ''references'' (JList []) = Inr (JList two_refs)
   \<and> py_iter (JList two_refs) = Inr two_refs
   \<and> two_refs \<noteq> []
   \<and> (\<exists>frags. length frags = length two_refs \<and> references two_refs_paper = join '' '' frags)"
proof -
  have m: "make_paper two_refs_entry = Inr two_refs_paper" by code_simp
  have g: "py_get two_refs_entry ''references'' (JList []) = Inr (JList two_refs)" by code_simp
  have i: "py_iter (JList two_refs) = Inr two_refs" by simp
  have n: "two_refs \<noteq> []" by (simp add: two_refs_def)
  from references_are_numbered_citations[OF m g i] n m g i show ?thesis by blast
qed

text \<open>
  Claim C4 as stated fails: the title of a reference is copied as it is, so a semicolon
  in it is a semicolon in the citation.
\<close>

theorem semicolon_in_citation:
  "make_paper semicolon_entry = Inr semicolon_paper
   \<and> \<not> semicolon_free (references semicolon_paper)"
  by code_simp


text \<open>
  What the defaults of \<^verbatim>\<open>entry.get\<close> (lines 43 to 47) do: a missing \<^verbatim>\<open>abstract\<close>, \<^verbatim>\<open>url\<close>
  or \<^verbatim>\<open>year\<close> gives the placeholder, and a field that is present is copied as it is,
  whatever its value.
\<close>

lemma placeholders_for_missing_fields:
  assumes "make_paper (JObj kvs) = Inr p"
  shows "(map_of kvs ''abstract'' = None \<longrightarrow> summary p = JStr ''No abstract available'')
     \<and> (map_of kvs ''url'' = None \<longrightarrow> pdf_url p = JStr ''No URL available'')
     \<and> (map_of kvs ''year'' = None \<longrightarrow> published p = JStr ''Unknown'')
     \<and> (\<forall>v. map_of kvs ''abstract'' = Some v \<longrightarrow> summary p = v)
     \<and> (\<forall>v. map_of kvs ''url'' = Some v \<longrightarrow> pdf_url p = v)
     \<and> (\<forall>v. map_of kvs ''year'' = Some v \<longrightarrow> published p = v)"
  using assms by (auto simp: make_paper_def split: sum.splits option.splits)

text \<open>
  Claim C5 says that an entry without abstract, url or year gets the placeholders, so
  that every field of every record has a defined value. The code gives the placeholder
  only when the key is missing from the dict. The service sends \<^verbatim>\<open>"abstract": null\<close> for
  a paper without abstract: the key is there, \<^verbatim>\<open>entry.get\<close> returns \<^verbatim>\<open>None\<close>, and the
  summary of the record is \<^verbatim>\<open>None\<close> instead of \<^verbatim>\<open>No abstract available\<close>.
\<close>

theorem null_abstract_is_kept:
  "make_paper null_abstract_entry = Inr null_abstract_paper
   \<and> summary null_abstract_paper = JNull
   \<and> summary null_abstract_paper \<noteq> JStr ''No abstract available''"
  by code_simp

section \<open>Claims about the exporter\<close>

lemma write_rows_None:
  "write_rows env k out ps = (out', None) \<Longrightarrow>
   (\<forall>j<length ps. write_error env (k + j) = None) \<and> (\<forall>p\<in>set ps. \<exists>cells. paper_row p = Inr cells)"
proof (induction ps arbitrary: k out)
  case Nil
  then show ?case by simp
next
  case (Cons p ps)
  from Cons.prems obtain cells where c: "paper_row p = Inr cells" and w: "write_error env k = None"
    and r: "write_rows env (Suc k) (out @ csv_row cells) ps = (out', None)"
    by (auto split: sum.splits option.splits)
  from Cons.IH[OF r] c w show ?case
    by (auto simp: less_Suc_eq_0_disj)
qed

text \<open>
  Claim C7, amended: when the folder can be made, the call returns normally whatever
  the records, the path and the failures of opening, writing and closing the file are;
  it prints either the success line or the failure line, and the success line only when
  nothing has failed.
\<close>

theorem export_failures_are_caught:
  assumes "makedirs_error env folder_path = None"
  shows "\<exists>r. save_papers_to_file env papers folder_path filename = Inr r
     \<and> folder r = folder_path \<and> file_path r = os_path_join folder_path filename
     \<and> (printed r = Saved (length papers) (file_path r) \<or> (\<exists>e. printed r = Failed e))
     \<and> (printed r = Saved (length papers) (file_path r) \<longrightarrow>
          open_error env (file_path r) = None
          \<and> (\<forall>k\<le>length papers. write_error env k = None)
          \<and> (\<forall>p\<in>set papers. \<exists>cells. paper_row p = Inr cells)
          \<and> close_error env = None)"
proof -
  let ?path = "os_path_join folder_path filename"
  obtain out x where w: "write_rows env 1 (csv_row headers) papers = (out, x)"
    by (cases "write_rows env 1 (csv_row headers) papers") auto
  show ?thesis
  proof (cases "open_error env ?path = None \<and> write_error env 0 = None \<and> x = None \<and> close_error env = None")
    case True
    with w write_rows_None[of env 1 "csv_row headers" papers out] 
    have a: "\<forall>j<length papers. write_error env (Suc j) = None" and b: "\<forall>p\<in>set papers. \<exists>cells. paper_row p = Inr cells" by auto
    have "\<forall>k\<le>length papers. write_error env k = None"
    proof (intro allI impI)
      fix k assume "k \<le> length papers"
      then show "write_error env k = None" using a True by (cases k) auto
    qed
    with True w b assms show ?thesis
      by (simp add: save_papers_to_file_def Let_def)
  next
    case False
    with w assms show ?thesis
      by (auto simp: save_papers_to_file_def Let_def split: option.splits)
  qed
qed

text \<open>
  Claim C7 as stated fails for the creation of the folder: \<^verbatim>\<open>os.makedirs\<close> is called
  before the \<^verbatim>\<open>try\<close>, and its exception reaches the caller.
\<close>

theorem makedirs_error_propagates:
  "save_papers_to_file no_folder [] ''out'' ''papers.csv'' = Inl OSError"
  by code_simp

theorem export_failures_are_caught_witness:
  "makedirs_error no_file ''out'' = None
   \<and> save_papers_to_file no_file [blank_paper] ''out'' ''papers.csv''
       = Inr \<lparr>folder = ''out'', file_path = ''out/papers.csv'', file_text = None, printed = Failed OSError\<rparr>"
proof -
  have m: "makedirs_error no_file ''out'' = None" by code_simp
  have s: "save_papers_to_file no_file [blank_paper] ''out'' ''papers.csv''
       = Inr \<lparr>folder = ''out'', file_path = ''out/papers.csv'', file_text = None, printed = Failed OSError\<rparr>"
    by code_simp
  from export_failures_are_caught[OF m, of "[blank_paper]" "''papers.csv''"] m s show ?thesis by simp
qed

lemma csv_row_headers: "csv_row headers = header_line"
  by code_simp

lemma file_lines_header: "file_lines header_line = [header_line]"
  by code_simp

text \<open>
  Claim C10: when no call to the operating system fails, saving the empty list makes the
  folder, writes a file that holds the header row and nothing else, one line, and prints
  the success line.
\<close>

theorem empty_list_writes_header_only:
  assumes "nothing_fails env folder_path filename 0"
  shows "save_papers_to_file env [] folder_path filename
     = Inr \<lparr>folder = folder_path, file_path = os_path_join folder_path filename,
            file_text = Some header_line, printed = Saved 0 (os_path_join folder_path filename)\<rparr>
     \<and> file_lines header_line = [header_line]"
  using assms
  by (simp add: nothing_fails_def save_papers_to_file_def Let_def csv_row_headers file_lines_header)

theorem empty_list_writes_header_only_witness:
  "nothing_fails no_failure ''output_papers'' ''semantic_scholar_papers.csv'' 0
   \<and> save_papers_to_file no_failure [] ''output_papers'' ''semantic_scholar_papers.csv''
     = Inr \<lparr>folder = ''output_papers'', file_path = ''output_papers/semantic_scholar_papers.csv'',
            file_text = Some header_line, printed = Saved 0 ''output_papers/semantic_scholar_papers.csv''\<rparr>"
proof -
  have n: "nothing_fails no_failure ''output_papers'' ''semantic_scholar_papers.csv'' 0"
    by code_simp
  have p: "os_path_join ''output_papers'' ''semantic_scholar_papers.csv'' = ''output_papers/semantic_scholar_papers.csv''"
    by code_simp
  from empty_list_writes_header_only[OF n] n p show ?thesis by simp
qed

section \<open>Writing rows and reading them back\<close>

lemma special_chars [simp]:
  "CHR '','' \<noteq> dquote" "dquote \<noteq> CHR '',''" "CHR '','' \<noteq> CR" "CHR '','' \<noteq> LF"
  "dquote \<noteq> CR" "dquote \<noteq> LF" "CR \<noteq> LF" "LF \<noteq> CR" "CR \<noteq> dquote" "LF \<noteq> dquote"
  "CR \<noteq> CHR '',''" "LF \<noteq> CHR '',''"
  by (simp_all add: dquote_def CR_def LF_def)

lemma line_ends_simps [simp]:
  "line_ends LF cs" "line_ends CR (LF # cs) = False" "c \<noteq> LF \<Longrightarrow> c \<noteq> CR \<Longrightarrow> line_ends c cs = False"
  by (simp_all add: line_ends_def)

lemma needs_quotes_plain: "needs_quotes s = (\<not> (\<forall>c\<in>set s. plain c))"
  by (auto simp: needs_quotes_def plain_def)

text \<open>Reading the characters of an unquoted field.\<close>

lemma read_plain_in_field:
  "\<forall>c\<in>set s. plain c \<Longrightarrow>
   read_chars (IN_FIELD, f, flds) rows m (s @ rest) =
     (if s = [] then read_chars (IN_FIELD, f, flds) rows m rest
      else read_chars (IN_FIELD, f @ s, flds) rows True rest)"
proof (induction s arbitrary: f m)
  case Nil
  then show ?case by simp
next
  case (Cons c s)
  then show ?case by (simp add: plain_def)
qed

lemma read_plain_start:
  assumes "\<forall>c\<in>set s. plain c" "st = START_FIELD \<or> st = START_RECORD" "s \<noteq> []"
  shows "read_chars (st, [], flds) rows m (s @ rest) = read_chars (IN_FIELD, s, flds) rows True rest"
proof -
  from assms(3) obtain c s' where s: "s = c # s'" by (cases s) auto
  with assms(1) have c: "plain c" and s': "\<forall>c\<in>set s'. plain c" by simp_all
  have "read_chars (st, [], flds) rows m (c # s' @ rest) = read_chars (IN_FIELD, [c], flds) rows True (s' @ rest)"
    using c assms(2) by (auto simp: plain_def start_field_def)
  with read_plain_in_field[OF s', of "[c]" flds rows True rest] s show ?thesis by simp
qed

text \<open>Reading the body of a quoted field up to its closing quote.\<close>

lemma double_quotes_simps [simp]:
  "double_quotes [] = []"
  "double_quotes (dquote # s) = dquote # dquote # double_quotes s"
  "c \<noteq> dquote \<Longrightarrow> double_quotes (c # s) = c # double_quotes s"
  by (simp_all add: double_quotes_def)

lemma read_quoted_step:
  "c \<noteq> dquote \<Longrightarrow>
   read_chars (IN_QUOTED_FIELD, f, flds) rows m (c # cs)
     = read_chars (IN_QUOTED_FIELD, f @ [c], flds) rows (\<not> line_ends c cs) cs"
  by simp

lemma read_quoted_quote:
  "read_chars (IN_QUOTED_FIELD, f, flds) rows m (dquote # dquote # cs)
     = read_chars (IN_QUOTED_FIELD, f @ [dquote], flds) rows True cs"
  by simp

lemma read_quoted_close:
  "read_chars (IN_QUOTED_FIELD, f, flds) rows m (dquote # cs)
     = read_chars (QUOTE_IN_QUOTED_FIELD, f, flds) rows True cs"
  by simp

lemma read_quoted_body:
  "read_chars (IN_QUOTED_FIELD, f, flds) rows m (double_quotes s @ dquote # rest) =
     read_chars (QUOTE_IN_QUOTED_FIELD, f @ s, flds) rows True rest"
proof (induction s arbitrary: f m)
  case Nil
  show ?case by (simp only: double_quotes_simps append_Nil append_Nil2 read_quoted_close)
next
  case (Cons c s)
  show ?case
  proof (cases "c = dquote")
    case True
    have "read_chars (IN_QUOTED_FIELD, f, flds) rows m (double_quotes (c # s) @ dquote # rest)
        = read_chars (IN_QUOTED_FIELD, f @ [dquote], flds) rows True (double_quotes s @ dquote # rest)"
      unfolding True double_quotes_simps(2) append_Cons by (rule read_quoted_quote)
    also have "\<dots> = read_chars (QUOTE_IN_QUOTED_FIELD, (f @ [dquote]) @ s, flds) rows True rest"
      by (rule Cons.IH)
    finally show ?thesis using True by simp
  next
    case False
    have "read_chars (IN_QUOTED_FIELD, f, flds) rows m (double_quotes (c # s) @ dquote # rest)
        = read_chars (IN_QUOTED_FIELD, f @ [c], flds) rows
            (\<not> line_ends c (double_quotes s @ dquote # rest)) (double_quotes s @ dquote # rest)"
      unfolding double_quotes_simps(3)[OF False] append_Cons by (rule read_quoted_step[OF False])
    also have "\<dots> = read_chars (QUOTE_IN_QUOTED_FIELD, (f @ [c]) @ s, flds) rows True rest"
      by (rule Cons.IH)
    finally show ?thesis by simp
  qed
qed

text \<open>The end of a field: a comma, or the line terminator.\<close>

lemma read_comma:
  assumes "st = IN_FIELD \<or> st = QUOTE_IN_QUOTED_FIELD \<or> (st = START_FIELD \<and> f = []) \<or> (st = START_RECORD \<and> f = [])"
  shows "read_chars (st, f, flds) rows m (CHR '','' # rest) = read_chars (START_FIELD, [], flds @ [f]) rows True rest"
  using assms by (auto simp: start_field_def)

lemma read_crlf:
  assumes "st = IN_FIELD \<or> st = QUOTE_IN_QUOTED_FIELD \<or> (st = START_FIELD \<and> f = [])"
  shows "read_chars (st, f, flds) rows m (CR # LF # rest) = read_chars (START_RECORD, [], []) (rows @ [flds @ [f]]) False rest"
  using assms by (auto simp: start_field_def)

lemma read_field_comma:
  assumes "st = START_FIELD \<or> st = START_RECORD"
  shows "read_chars (st, [], flds) rows m (csv_field s @ CHR '','' # rest) = read_chars (START_FIELD, [], flds @ [s]) rows True rest"
proof (cases "needs_quotes s")
  case True
  have "read_chars (st, [], flds) rows m (dquote # double_quotes s @ dquote # CHR '','' # rest)
      = read_chars (IN_QUOTED_FIELD, [], flds) rows True (double_quotes s @ dquote # CHR '','' # rest)"
    using assms by (auto simp: start_field_def)
  also have "\<dots> = read_chars (QUOTE_IN_QUOTED_FIELD, s, flds) rows True (CHR '','' # rest)"
    using read_quoted_body[of "[]" flds rows True s] by simp
  also have "\<dots> = read_chars (START_FIELD, [], flds @ [s]) rows True rest"
    by (rule read_comma) simp
  finally show ?thesis using True by (simp add: csv_field_def)
next
  case False
  then have p: "\<forall>c\<in>set s. plain c" by (simp add: needs_quotes_plain)
  show ?thesis
  proof (cases "s = []")
    case True
    with False assms read_comma[of st "[]" flds rows m rest] show ?thesis by (auto simp: csv_field_def)
  next
    case ne: False
    from read_plain_start[OF p assms ne] read_comma[of IN_FIELD s flds rows True rest] False
    show ?thesis by (simp add: csv_field_def)
  qed
qed

lemma read_field_crlf:
  "read_chars (START_FIELD, [], flds) rows m (csv_field s @ CR # LF # rest)
     = read_chars (START_RECORD, [], []) (rows @ [flds @ [s]]) False rest"
proof (cases "needs_quotes s")
  case True
  have "read_chars (START_FIELD, [], flds) rows m (dquote # double_quotes s @ dquote # CR # LF # rest)
      = read_chars (IN_QUOTED_FIELD, [], flds) rows True (double_quotes s @ dquote # CR # LF # rest)"
    by (auto simp: start_field_def)
  also have "\<dots> = read_chars (QUOTE_IN_QUOTED_FIELD, s, flds) rows True (CR # LF # rest)"
    using read_quoted_body[of "[]" flds rows True s] by simp
  also have "\<dots> = read_chars (START_RECORD, [], []) (rows @ [flds @ [s]]) False rest"
    by (rule read_crlf) simp
  finally show ?thesis using True by (simp add: csv_field_def)
next
  case False
  then have p: "\<forall>c\<in>set s. plain c" by (simp add: needs_quotes_plain)
  show ?thesis
  proof (cases "s = []")
    case True
    with False read_crlf[of START_FIELD "[]" flds rows m rest] show ?thesis by (auto simp: csv_field_def)
  next
    case ne: False
    from read_plain_start[OF p _ ne, of START_FIELD] read_crlf[of IN_FIELD s flds rows True rest] False
    show ?thesis by (simp add: csv_field_def)
  qed
qed

lemma read_fields:
  "cells \<noteq> [] \<Longrightarrow>
   read_chars (START_FIELD, [], flds) rows m (join '','' (map csv_field cells) @ CR # LF # rest)
     = read_chars (START_RECORD, [], []) (rows @ [flds @ cells]) False rest"
proof (induction cells arbitrary: flds m)
  case Nil
  then show ?case by simp
next
  case (Cons c cells)
  show ?case
  proof (cases cells)
    case Nil
    with read_field_crlf[of flds rows m c rest] show ?thesis by simp
  next
    case (Cons d ds)
    have "read_chars (START_FIELD, [], flds) rows m (csv_field c @ CHR '','' # join '','' (map csv_field cells) @ CR # LF # rest)
      = read_chars (START_FIELD, [], flds @ [c]) rows True (join '','' (map csv_field cells) @ CR # LF # rest)"
      by (rule read_field_comma) simp
    with Cons.IH[of "flds @ [c]" True] Cons show ?thesis by simp
  qed
qed

lemma read_row:
  assumes "2 \<le> length cells"
  shows "read_chars (START_RECORD, [], []) rows False (csv_row cells @ rest)
     = read_chars (START_RECORD, [], []) (rows @ [cells]) False rest"
proof -
  from assms obtain c d ds where cells: "cells = c # d # ds"
    by (cases cells; cases "tl cells") auto
  have "read_chars (START_RECORD, [], []) rows False (csv_field c @ CHR '','' # join '','' (map csv_field (d # ds)) @ CR # LF # rest)
      = read_chars (START_FIELD, [], [] @ [c]) rows True (join '','' (map csv_field (d # ds)) @ CR # LF # rest)"
    by (rule read_field_comma) simp
  also have "\<dots> = read_chars (START_RECORD, [], []) (rows @ [[c] @ (d # ds)]) False rest"
    using read_fields[of "d # ds" "[c]" rows True rest] by simp
  finally show ?thesis by (simp add: cells csv_row_def)
qed

lemma read_rows:
  "\<forall>r\<in>set rs. 2 \<le> length r \<Longrightarrow>
   read_chars (START_RECORD, [], []) rows False (concat (map csv_row rs)) = Inr (rows @ rs)"
proof (induction rs arbitrary: rows)
  case Nil
  then show ?case by (simp add: at_eof_def)
next
  case (Cons r rs)
  from Cons.prems have "2 \<le> length r" by simp
  from read_row[OF this, of rows "concat (map csv_row rs)"] Cons.IH[of "rows @ [r]"] Cons.prems
  show ?case by simp
qed

lemma csv_reader_roundtrip:
  "\<forall>r\<in>set rs. 2 \<le> length r \<Longrightarrow> csv_reader (concat (map csv_row rs)) = Inr rs"
  using read_rows[of rs "[]"] by (simp add: csv_reader_def)

lemma try_map_as_str_strings: "list_all is_str xs \<Longrightarrow>
  try_map as_str xs = Inr (map (\<lambda>a. case a of JStr s \<Rightarrow> s | _ \<Rightarrow> []) xs)"
proof (induction xs)
  case Nil
  then show ?case by simp
next
  case (Cons x xs)
  then show ?case by (cases x) simp_all
qed

lemma paper_row_strings:
  "list_all is_str (authors p) \<Longrightarrow> paper_row p = Inr (cells_of p)"
  by (simp add: paper_row_def py_join_def try_map_as_str_strings cells_of_def author_strings_def)

lemma write_rows_ok:
  "\<forall>p\<in>set ps. list_all is_str (authors p) \<Longrightarrow> \<forall>j<length ps. write_error env (k + j) = None \<Longrightarrow>
   write_rows env k out ps = (out @ concat (map csv_row (map cells_of ps)), None)"
proof (induction ps arbitrary: k out)
  case Nil
  then show ?case by simp
next
  case (Cons p ps)
  from Cons.prems(2) have w: "write_error env k = None"
    and r: "\<forall>j<length ps. write_error env (Suc k + j) = None"
    by force+
  from Cons.prems(1) have a: "list_all is_str (authors p)" and b: "\<forall>p\<in>set ps. list_all is_str (authors p)"
    by simp_all
  from Cons.IH[OF b r, of "out @ csv_row (cells_of p)"] w paper_row_strings[OF a]
  show ?case by simp
qed

lemma save_ok:
  assumes "\<forall>p\<in>set papers. list_all is_str (authors p)"
    "nothing_fails env folder_path filename (length papers)"
  shows "save_papers_to_file env papers folder_path filename
     = Inr \<lparr>folder = folder_path, file_path = os_path_join folder_path filename,
            file_text = Some (concat (map csv_row (headers # map cells_of papers))),
            printed = Saved (length papers) (os_path_join folder_path filename)\<rparr>"
proof -
  from assms(2) have m: "makedirs_error env folder_path = None"
    and opn: "open_error env (os_path_join folder_path filename) = None"
    and w: "\<forall>k<Suc (length papers). write_error env k = None"
    and c: "close_error env = None"
    by (simp_all add: nothing_fails_def list_all_iff del: upt_Suc)
  from w have w0: "write_error env 0 = None" and w1: "\<forall>j<length papers. write_error env (1 + j) = None"
    by simp_all
  from write_rows_ok[OF assms(1) w1, of "csv_row headers"] m opn w0 c show ?thesis
    by (simp add: save_papers_to_file_def Let_def)
qed

lemma length_cells_of: "length (cells_of p) = 6"
  by (simp add: cells_of_def)

lemma length_headers: "length headers = 6"
  by (simp add: headers_def)

text \<open>
  Claim C6, amended: for a list of \<open>K\<close> records whose authors are all strings, when no
  call to the operating system fails, the file written is read back as the header row
  followed by \<open>K\<close> rows in the order of the records. The row of a record holds, for
  Title, Published, Summary and PDF URL, the text the writer writes for the field: the
  field itself when it is a string, its decimal digits when it is an integer, nothing
  when it is \<^verbatim>\<open>None\<close>; its Authors cell is the join of the authors with a comma and a space.
\<close>

theorem export_roundtrip:
  assumes "\<forall>p\<in>set papers. list_all is_str (authors p)"
    "nothing_fails env folder_path filename (length papers)"
  shows "\<exists>text. save_papers_to_file env papers folder_path filename
       = Inr \<lparr>folder = folder_path, file_path = os_path_join folder_path filename,
              file_text = Some text,
              printed = Saved (length papers) (os_path_join folder_path filename)\<rparr>
     \<and> csv_reader text = Inr (headers # map cells_of papers)
     \<and> (\<forall>p\<in>set papers. py_join '', '' (authors p) = Inr (cells_of p ! 1))
     \<and> (\<forall>s. csv_cell (JStr s) = s) \<and> (\<forall>n. csv_cell (JInt n) = string_of_int n)
     \<and> csv_cell JNull = []"
proof -
  have "\<forall>r\<in>set (headers # map cells_of papers). 2 \<le> length r"
    by (auto simp: length_cells_of length_headers)
  from csv_reader_roundtrip[OF this]
  have rt: "csv_reader (concat (map csv_row (headers # map cells_of papers)))
      = Inr (headers # map cells_of papers)" .
  have j: "py_join '', '' (authors p) = Inr (cells_of p ! 1)" if "p \<in> set papers" for p
    using assms(1) that
    by (simp add: py_join_def try_map_as_str_strings cells_of_def author_strings_def)
  from save_ok[OF assms] rt j show ?thesis
    by (simp add: csv_cell_def)
qed

theorem export_roundtrip_witness:
  "list_all is_str (authors year_only_paper) \<and> list_all is_str (authors null_year_paper)
   \<and> nothing_fails no_failure ''out'' ''papers.csv'' (length [year_only_paper, null_year_paper])
   \<and> (\<exists>text. save_papers_to_file no_failure [year_only_paper, null_year_paper] ''out'' ''papers.csv''
       = Inr \<lparr>folder = ''out'', file_path = os_path_join ''out'' ''papers.csv'',
              file_text = Some text, printed = Saved 2 (os_path_join ''out'' ''papers.csv'')\<rparr>
       \<and> csv_reader text = Inr (headers # map cells_of [year_only_paper, null_year_paper]))"
proof -
  have a: "\<forall>p\<in>set [year_only_paper, null_year_paper]. list_all is_str (authors p)"
    by (simp add: year_only_paper_def null_year_paper_def blank_paper_def)
  have n: "nothing_fails no_failure ''out'' ''papers.csv'' (length [year_only_paper, null_year_paper])"
    by code_simp
  from export_roundtrip[OF a n] a n show ?thesis by auto
qed

text \<open>
  Claim C6 as stated fails: a cell read back is text, so the Published cell of a record
  with the year 2020 is the string \<^verbatim>\<open>2020\<close>, not the integer, and the one of a record whose
  year is \<^verbatim>\<open>None\<close> is empty.
\<close>

theorem cells_are_text_not_fields:
  "save_papers_to_file no_failure [year_only_paper, null_year_paper] ''out'' ''papers.csv''
     = Inr \<lparr>folder = ''out'', file_path = ''out/papers.csv'', file_text = Some two_rows_text,
            printed = Saved 2 ''out/papers.csv''\<rparr>
   \<and> csv_reader two_rows_text = Inr two_rows
   \<and> two_rows ! 1 ! 2 = ''2020'' \<and> published year_only_paper = JInt 2020
   \<and> two_rows ! 2 ! 2 = [] \<and> published null_year_paper = JNull
   \<and> \<not> roundtrip_exact [year_only_paper, null_year_paper] two_rows"
  by code_simp

section \<open>Records of well-formed entries\<close>

lemma names_ok:
  "list_all name_ok as \<Longrightarrow>
   \<exists>names. try_map (\<lambda>a. py_getitem a ''name'') as = Inr (map JStr names)"
proof (induction as)
  case Nil
  then show ?case by simp
next
  case (Cons a as)
  then obtain names where n: "try_map (\<lambda>a. py_getitem a ''name'') as = Inr (map JStr names)"
    by auto
  from Cons.prems obtain kvs s where a: "a = JObj kvs" "map_of kvs ''name'' = Some (JStr s)"
    by (auto simp: name_ok_def split: json.splits option.splits)
  have "try_map (\<lambda>a. py_getitem a ''name'') (a # as) = Inr (map JStr (s # names))"
    using a n by simp
  then show ?case by blast
qed

lemma author_names_ok:
  assumes "field_ok authors_ok kvs ''authors''"
  shows "\<exists>names. author_names (JObj kvs) = Inr (map JStr names)"
proof (cases "map_of kvs ''authors''")
  case None
  then have "author_names (JObj kvs) = Inr (map JStr [])" by (simp add: author_names_def)
  then show ?thesis by blast
next
  case (Some v)
  with assms obtain as where v: "v = JList as" "list_all name_ok as"
    by (auto simp: field_ok_def authors_ok_def split: json.splits)
  from names_ok[OF v(2)] Some v(1) show ?thesis by (simp add: author_names_def)
qed

lemma py_join_strings: "py_join sep (map JStr names) = Inr (join sep names)"
proof -
  have "try_map as_str (map JStr names) = Inr names" by (induction names) simp_all
  then show ?thesis by (simp add: py_join_def)
qed

lemma format_reference_ok:
  assumes "ref_ok r"
  shows "\<exists>f. format_reference idx r = Inr f"
proof -
  from assms obtain kvs where r: "r = JObj kvs" and a: "field_ok authors_ok kvs ''authors''"
    by (auto simp: ref_ok_def split: json.splits)
  from author_names_ok[OF a] obtain names where
    n: "author_names (JObj kvs) = Inr (map JStr names)" by blast
  show ?thesis
    using r n by (simp add: format_reference_def py_join_strings split: option.splits)
qed

lemma format_references_ok:
  "list_all ref_ok rs \<Longrightarrow> \<exists>fs. format_references k rs = Inr fs"
proof (induction rs arbitrary: k)
  case Nil
  then show ?case by simp
next
  case (Cons r rs)
  from Cons.prems have "ref_ok r" "list_all ref_ok rs" by simp_all
  from format_reference_ok[OF this(1), of k] Cons.IH[OF this(2), of "Suc k"]
  obtain f fs where "format_reference k r = Inr f" "format_references (Suc k) rs = Inr fs"
    by blast
  then have "format_references k (r # rs) = Inr (f # fs)" by simp
  then show ?case by blast
qed

lemma make_paper_ok:
  assumes "well_formed_entry e"
  shows "\<exists>p. make_paper e = Inr p \<and> list_all is_str (authors p)"
proof -
  from assms obtain kvs where e: "e = JObj kvs" and a: "field_ok authors_ok kvs ''authors''"
    and rf: "field_ok refs_ok kvs ''references''"
    by (auto simp: well_formed_entry_def split: json.splits)
  from author_names_ok[OF a] obtain names where
    n: "author_names (JObj kvs) = Inr (map JStr names)" by blast
  obtain rs where rs: "py_get (JObj kvs) ''references'' (JList []) = Inr (JList rs)" "list_all ref_ok rs"
    using rf by (cases "map_of kvs ''references''") (auto simp: field_ok_def refs_ok_def split: json.splits)
  from format_references_ok[OF rs(2), of 1] obtain fs where
    fs: "format_references 1 rs = Inr fs" by blast
  have strs: "list_all is_str (map JStr names)" by (induction names) simp_all
  obtain tv where tv: "py_get (JObj kvs) ''title'' (JStr ''No title'') = Inr tv"
    by (cases "map_of kvs ''title''") auto
  obtain av where av: "py_get (JObj kvs) ''abstract'' (JStr ''No abstract available'') = Inr av"
    by (cases "map_of kvs ''abstract''") auto
  obtain yv where yv: "py_get (JObj kvs) ''year'' (JStr ''Unknown'') = Inr yv"
    by (cases "map_of kvs ''year''") auto
  obtain uv where uv: "py_get (JObj kvs) ''url'' (JStr ''No URL available'') = Inr uv"
    by (cases "map_of kvs ''url''") auto
  have "make_paper e = Inr \<lparr>title = tv, summary = av, authors = map JStr names, published = yv,
      pdf_url = uv,
      references = (if fs \<noteq> [] then join '' '' fs else ''No references available'')\<rparr>"
    using e n rs(1) fs tv av yv uv unfolding make_paper_def by (simp del: py_get.simps)
  with strs show ?thesis by simp
qed

text \<open>
  A page that does not reach the maximum is appended whole: the records are those of its
  entries, in order.
\<close>

lemma append_entries_all:
  "\<forall>e\<in>set entries. well_formed_entry e \<Longrightarrow> int (length papers + length entries) \<le> mp \<Longrightarrow>
   \<exists>new. append_entries mp papers entries = (papers @ new, None)
     \<and> map Inr new = map make_paper entries
     \<and> (\<forall>p\<in>set new. list_all is_str (authors p))"
proof (induction entries arbitrary: papers)
  case Nil
  then show ?case by simp
next
  case (Cons e es)
  from Cons.prems(1) make_paper_ok[of e] obtain p where
    p: "make_paper e = Inr p" "list_all is_str (authors p)"
    by auto
  show ?case
  proof (cases "es = []")
    case True
    with p have "append_entries mp papers (e # es) = (papers @ [p], None)" by simp
    with True p show ?thesis by force
  next
    case False
    with Cons.prems(2) have lt: "\<not> int (length (papers @ [p])) \<ge> mp"
      by (cases es) auto
    from Cons.prems have "\<forall>e\<in>set es. well_formed_entry e" "int (length (papers @ [p]) + length es) \<le> mp"
      by simp_all
    from Cons.IH[OF this] obtain new where
      n: "append_entries mp (papers @ [p]) es = ((papers @ [p]) @ new, None)"
      "map Inr new = map make_paper es" "\<forall>p\<in>set new. list_all is_str (authors p)" by blast
    have "append_entries mp papers (e # es) = (papers @ (p # new), None)"
      using p(1) lt n(1) by simp
    with n(2,3) p show ?thesis by force
  qed
qed

section \<open>The lines of the file\<close>

lemma single_line_simps [simp]:
  "single_line []" "single_line (c # s) = (c \<noteq> CR \<and> c \<noteq> LF \<and> single_line s)"
  "single_line (s @ t) = (single_line s \<and> single_line t)"
  by (auto simp: single_line_def)

lemma single_line_join:
  "\<forall>s\<in>set ss. single_line s \<Longrightarrow> single_line sep \<Longrightarrow> single_line (join sep ss)"
  by (induction sep ss rule: join.induct) auto

lemma splitlines_line:
  "single_line body \<Longrightarrow>
   splitlines cur (body @ CR # LF # rest) = (cur @ body @ [CR, LF]) # splitlines [] rest"
proof (induction body arbitrary: cur)
  case Nil
  then show ?case by simp
next
  case (Cons c body)
  then show ?case by simp
qed

lemma double_quotes_line: "single_line s \<Longrightarrow> single_line (double_quotes s)"
  by (induction s) (auto simp: double_quotes_def)

lemma csv_field_line: "single_line s \<Longrightarrow> single_line (csv_field s)"
  by (simp add: csv_field_def double_quotes_line)

lemma csv_row_line:
  assumes "\<forall>c\<in>set cells. single_line c" "2 \<le> length cells"
  shows "\<exists>body. csv_row cells = body @ [CR, LF] \<and> single_line body"
proof -
  from assms(2) have "cells \<noteq> [[]]" by auto
  then have "csv_row cells = join '','' (map csv_field cells) @ [CR, LF]"
    by (simp add: csv_row_def)
  moreover have "single_line (join '','' (map csv_field cells))"
    using assms(1) by (intro single_line_join) (auto simp: csv_field_line)
  ultimately show ?thesis by blast
qed

text \<open>Rows whose cells hold no line break are written one row to a line.\<close>

lemma file_lines_rows:
  "\<forall>r\<in>set rows. (\<forall>c\<in>set r. single_line c) \<and> 2 \<le> length r \<Longrightarrow>
   splitlines [] (concat (map csv_row rows)) = map csv_row rows"
proof (induction rows)
  case Nil
  then show ?case by simp
next
  case (Cons r rows)
  from Cons.prems csv_row_line[of r] obtain body where
    b: "csv_row r = body @ [CR, LF]" "single_line body" by auto
  from splitlines_line[OF b(2), of "[]" "concat (map csv_row rows)"] b(1) Cons
  show ?case by simp
qed

lemma headers_line: "\<forall>c\<in>set headers. single_line c"
  by (simp add: headers_def CR_def LF_def)

text \<open>
  Claim C8, amended: with \<^verbatim>\<open>max_papers = 10\<close> and \<^verbatim>\<open>batch_size = 10\<close>, against a service
  whose reply to the first request is a page of ten well-formed entries, the fetcher
  returns the ten records of these entries, in order, and sends that one request only.
  Saving the records, when no call to the operating system fails, prints the success
  line and writes a file that is read back as eleven rows: the header row and the row
  of each record. When no cell of the records holds a line break, the lines of the file
  are these eleven rows.
\<close>

theorem one_full_page_end_to_end:
  assumes "length entries = 10" "\<forall>e\<in>set entries. well_formed_entry e"
    "map_of kvs ''data'' = Some (JList entries)"
    "service ml_request = Response 200 (Some (JObj kvs))"
    "nothing_fails env folder_path filename 10"
  shows "\<exists>papers text.
       search_semantic_scholar service ''machine learning'' 10 10 = Inr (papers, [ml_request])
     \<and> length papers = 10
     \<and> map Inr papers = map make_paper entries
     \<and> save_papers_to_file env papers folder_path filename
         = Inr \<lparr>folder = folder_path, file_path = os_path_join folder_path filename,
                file_text = Some text,
                printed = Saved 10 (os_path_join folder_path filename)\<rparr>
     \<and> csv_reader text = Inr (headers # map cells_of papers)
     \<and> length (headers # map cells_of papers) = 11
     \<and> (list_all one_line_cells papers \<longrightarrow>
          file_lines text = map csv_row (headers # map cells_of papers)
          \<and> length (file_lines text) = 11)"
proof -
  have rng: "py_range 0 10 10 = Inr [0]"
    by code_simp
  have ps: "make_params ''machine learning'' 10 10 [] 0 = ml_request"
    by (simp add: make_params_def ml_request_def)
  from append_entries_all[OF assms(2), of "[]" 10] assms(1) obtain papers where
    ap: "append_entries 10 [] entries = (papers, None)" "map Inr papers = map make_paper entries"
    "\<forall>p\<in>set papers. list_all is_str (authors p)" by auto
  from ap(2) have "length (map Inr papers :: (exn + paper) list) = length (map make_paper entries)"
    by simp
  with assms(1) have len: "length papers = 10" by simp
  from assms(1) have ne: "entries \<noteq> []" by auto
  have pd: "process_data 10 10 [] (JObj kvs) = (papers, Inr Continue)"
    using assms(1,3) ne ap(1) by (simp add: process_data_def)
  have pg: "fetch_page service ''machine learning'' 10 10 [] 0 = (ml_request, papers, Continue)"
    using assms(4) pd by (simp add: fetch_page_def try_page_def ps raise_for_status_def)
  have run: "search_semantic_scholar service ''machine learning'' 10 10 = Inr (papers, [ml_request])"
    by (simp add: search_semantic_scholar_def rng pg)
  let ?rows = "headers # map cells_of papers"
  let ?text = "concat (map csv_row ?rows)"
  from assms(5) len have nf: "nothing_fails env folder_path filename (length papers)" by simp
  from save_ok[OF ap(3) nf] len
  have sv: "save_papers_to_file env papers folder_path filename
         = Inr \<lparr>folder = folder_path, file_path = os_path_join folder_path filename,
                file_text = Some ?text,
                printed = Saved 10 (os_path_join folder_path filename)\<rparr>" by simp
  have two: "\<forall>r\<in>set ?rows. 2 \<le> length r"
    by (auto simp: length_cells_of length_headers)
  from csv_reader_roundtrip[OF two] have rd: "csv_reader ?text = Inr ?rows" .
  have n: "length ?rows = 11" using len by simp
  have ln: "file_lines ?text = map csv_row ?rows \<and> length (file_lines ?text) = 11"
    if "list_all one_line_cells papers"
  proof -
    from that have "\<forall>p\<in>set papers. \<forall>c\<in>set (cells_of p). single_line c"
      by (simp add: one_line_cells_def list_all_iff)
    with two headers_line have "\<forall>r\<in>set ?rows. (\<forall>c\<in>set r. single_line c) \<and> 2 \<le> length r"
      by auto
    from file_lines_rows[OF this] len show ?thesis by (simp add: file_lines_def)
  qed
  from run len ap(2) sv rd n ln show ?thesis by blast
qed

lemma sample_ok: "well_formed_entry sample_entry"
  by code_simp

lemma sample_run:
  "search_semantic_scholar one_page_api ''machine learning'' 10 10
     = Inr (replicate 10 sample_paper, [ml_request])"
  by code_simp

lemma sample_lines: "list_all one_line_cells (replicate 10 sample_paper)"
  by code_simp

theorem one_full_page_end_to_end_witness:
  "length (replicate 10 sample_entry) = 10
   \<and> well_formed_entry sample_entry
   \<and> map_of sample_page ''data'' = Some (JList (replicate 10 sample_entry))
   \<and> one_page_api ml_request = Response 200 (Some (JObj sample_page))
   \<and> nothing_fails no_failure ''output_papers'' ''semantic_scholar_papers.csv'' 10
   \<and> search_semantic_scholar one_page_api ''machine learning'' 10 10
       = Inr (replicate 10 sample_paper, [ml_request])
   \<and> list_all one_line_cells (replicate 10 sample_paper)
   \<and> (\<exists>text.
       save_papers_to_file no_failure (replicate 10 sample_paper) ''output_papers''
           ''semantic_scholar_papers.csv''
         = Inr \<lparr>folder = ''output_papers'',
                file_path = os_path_join ''output_papers'' ''semantic_scholar_papers.csv'',
                file_text = Some text,
                printed = Saved 10 (os_path_join ''output_papers'' ''semantic_scholar_papers.csv'')\<rparr>
     \<and> csv_reader text = Inr (headers # replicate 10 (cells_of sample_paper))
     \<and> file_lines text = map csv_row (headers # replicate 10 (cells_of sample_paper))
     \<and> length (file_lines text) = 11)"
proof -
  have l: "length (replicate 10 sample_entry) = 10" by simp
  have w: "\<forall>e\<in>set (replicate 10 sample_entry). well_formed_entry e"
    using sample_ok by simp
  have d: "map_of sample_page ''data'' = Some (JList (replicate 10 sample_entry))"
    by (simp add: sample_page_def)
  have a: "one_page_api ml_request = Response 200 (Some (JObj sample_page))"
    by (simp add: one_page_api_def ml_request_def)
  have n: "nothing_fails no_failure ''output_papers'' ''semantic_scholar_papers.csv'' 10"
    by code_simp
  from one_full_page_end_to_end[where service = one_page_api, OF l w d a n]
  obtain papers content where
    r: "search_semantic_scholar one_page_api ''machine learning'' 10 10 = Inr (papers, [ml_request])"
    and s: "save_papers_to_file no_failure papers ''output_papers'' ''semantic_scholar_papers.csv''
         = Inr \<lparr>folder = ''output_papers'',
                file_path = os_path_join ''output_papers'' ''semantic_scholar_papers.csv'',
                file_text = Some content,
                printed = Saved 10 (os_path_join ''output_papers'' ''semantic_scholar_papers.csv'')\<rparr>"
    and c: "csv_reader content = Inr (headers # map cells_of papers)"
    and f: "list_all one_line_cells papers \<longrightarrow>
          file_lines content = map csv_row (headers # map cells_of papers)
          \<and> length (file_lines content) = 11"
    by blast
  from r sample_run have p: "papers = replicate 10 sample_paper" by simp
  from f sample_lines p have f': "file_lines content = map csv_row (headers # map cells_of papers)"
    "length (file_lines content) = 11" by simp_all
  from l sample_ok d a n sample_run sample_lines s c f' p show ?thesis
    by auto
qed

text \<open>
  Claim C8 as stated fails for the lines of the file: a field with a line break is
  written inside quotes with the break kept, so each of the ten rows of entries with a
  two-line abstract takes two lines, and the file has twenty-one.
\<close>

theorem multiline_abstract_gives_more_lines:
  "well_formed_entry multiline_entry
   \<and> multiline_api ml_request
       = Response 200 (Some (JObj [(''data'', JList (replicate 10 multiline_entry))]))
   \<and> search_semantic_scholar multiline_api ''machine learning'' 10 10
       = Inr (replicate 10 multiline_paper, [ml_request])
   \<and> save_papers_to_file no_failure (replicate 10 multiline_paper) ''output_papers''
         ''semantic_scholar_papers.csv''
       = Inr \<lparr>folder = ''output_papers'',
              file_path = ''output_papers/semantic_scholar_papers.csv'',
              file_text = Some multiline_text,
              printed = Saved 10 ''output_papers/semantic_scholar_papers.csv''\<rparr>
   \<and> length (file_lines multiline_text) = 21"
  by code_simp


end
